theory Spec2Isabelle
  imports Complex_Main "HOL-Library.Char_ord" "HOL-Library.List_Lexorder" "HOL-Library.Multiset"
begin

section \<open>Errors raised by the scripts\<close>

text \<open>
  The scripts define no exception of their own. What can abort a run is one of
  Python's built-in errors: a missing dictionary key, an index into an empty list,
  \<^verbatim>\<open>random.sample\<close> asked for a negative or too large sample, and a division by
  zero in the aspect-ratio test.
\<close>

datatype py_error = KeyError string | IndexError | ValueError | ZeroDivisionError

section \<open>Configuration (prepare-transgeo.py, argument handling)\<close>

text \<open>
  The options of \<^verbatim>\<open>prepare-transgeo.py\<close> that steer curation and splitting. The
  float-valued options are modelled as rationals: the source only compares them and
  multiplies them with a list length. The path-valued options do not influence the
  manifest and are left out.
\<close>

record args =
  panorama_aspect_ratio :: rat
  max_positive_panoramas :: int
  distraction_proportion :: rat
  train_proportion :: rat



section \<open>The manifest\<close>

text \<open>
  The manifest is the JSON object written by \<^verbatim>\<open>image-manifest.py\<close> and read back by
  \<^verbatim>\<open>prepare-transgeo.py\<close>: two dictionaries, \<^verbatim>\<open>"aerial"\<close> and \<^verbatim>\<open>"ground"\<close>, from
  relative paths to items. Python dictionaries iterate in insertion order, so each is an
  association list; its keys are pairwise different. Coordinates are the strings the
  filename grammar captured (the builder never converts them), sizes are the integer
  pairs reported by the image library, and the two edge lists are lists of keys of the
  other dictionary.
\<close>

type_synonym lonlat = "string \<times> string"

record aerial_item =
  a_id :: string
  a_size :: "int \<times> int"
  a_center :: lonlat
  a_positive_boundary :: "lonlat \<times> lonlat"
  a_semi_positive_boundary :: "lonlat \<times> lonlat"
  a_positive :: "string list"
  a_semi_positive :: "string list"

record ground_item =
  g_size :: "int \<times> int"
  g_location :: lonlat
  g_positive :: "string list"
  g_semi_positive :: "string list"

record manifest =
  aerial :: "(string \<times> aerial_item) list"
  ground :: "(string \<times> ground_item) list"

definition dict_keys :: "(string \<times> 'v) list \<Rightarrow> string list" where
  "dict_keys d = map fst d"

text \<open>\<^verbatim>\<open>k in d\<close>\<close>

definition dict_has :: "string \<Rightarrow> (string \<times> 'v) list \<Rightarrow> bool" where
  "dict_has k d = (k \<in> set (dict_keys d))"

text \<open>\<^verbatim>\<open>del d[k]\<close>, for a key that is present.\<close>

definition dict_del :: "string \<Rightarrow> (string \<times> 'v) list \<Rightarrow> (string \<times> 'v) list" where
  "dict_del k d = filter (\<lambda>kv. fst kv \<noteq> k) d"

text \<open>
  A loop whose body may raise: the first error ends the loop and is the result.
\<close>

fun for_each :: "('a \<Rightarrow> 's \<Rightarrow> py_error + 's) \<Rightarrow> 'a list \<Rightarrow> 's \<Rightarrow> py_error + 's" where
  "for_each f [] s = Inr s"
| "for_each f (x # xs) s = (case f x s of Inl e \<Rightarrow> Inl e | Inr s' \<Rightarrow> for_each f xs s')"

section \<open>Removing a node (prepare-transgeo.py, remove_ground_image and remove_aerial_image)\<close>

text \<open>
  \<^verbatim>\<open>if key in item["positive"]: item["positive"].remove(key)\<close>, then the same on
  \<^verbatim>\<open>"semi-positive"\<close>. \<^verbatim>\<open>list.remove\<close> deletes the first occurrence only, which is
  \<^const>\<open>remove1\<close>.
\<close>

definition scrub_ground :: "string \<Rightarrow> aerial_item \<Rightarrow> aerial_item" where
  "scrub_ground g ai =
     (let ai1 = (if g \<in> set (a_positive ai)
                 then ai\<lparr>a_positive := remove1 g (a_positive ai)\<rparr> else ai)
      in if g \<in> set (a_semi_positive ai1)
         then ai1\<lparr>a_semi_positive := remove1 g (a_semi_positive ai1)\<rparr> else ai1)"

definition scrub_aerial :: "string \<Rightarrow> ground_item \<Rightarrow> ground_item" where
  "scrub_aerial a gi =
     (let gi1 = (if a \<in> set (g_positive gi)
                 then gi\<lparr>g_positive := remove1 a (g_positive gi)\<rparr> else gi)
      in if a \<in> set (g_semi_positive gi1)
         then gi1\<lparr>g_semi_positive := remove1 a (g_semi_positive gi1)\<rparr> else gi1)"

text \<open>
  \<^verbatim>\<open>del manifest["ground"][ground_key]\<close> raises \<^verbatim>\<open>KeyError\<close> when the key is absent;
  otherwise every aerial item is visited and scrubbed.
\<close>

definition remove_ground_image :: "string \<Rightarrow> manifest \<Rightarrow> py_error + manifest" where
  "remove_ground_image g m =
     (if \<not> dict_has g (ground m) then Inl (KeyError g)
      else Inr (m\<lparr>ground := dict_del g (ground m),
                  aerial := map (\<lambda>(k, ai). (k, scrub_ground g ai)) (aerial m)\<rparr>))"

definition remove_aerial_image :: "string \<Rightarrow> manifest \<Rightarrow> py_error + manifest" where
  "remove_aerial_image a m =
     (if \<not> dict_has a (aerial m) then Inl (KeyError a)
      else Inr (m\<lparr>aerial := dict_del a (aerial m),
                  ground := map (\<lambda>(k, gi). (k, scrub_aerial a gi)) (ground m)\<rparr>))"

text \<open>
  The dispatch used by the first two passes:
  \<^verbatim>\<open>if k in manifest["aerial"]: remove_aerial_image(k)\<close>
  \<^verbatim>\<open>elif k in manifest["ground"]: remove_ground_image(k)\<close>
\<close>

definition remove_image :: "string \<Rightarrow> manifest \<Rightarrow> py_error + manifest" where
  "remove_image k m =
     (if dict_has k (aerial m) then remove_aerial_image k m
      else if dict_has k (ground m) then remove_ground_image k m
      else Inr m)"

section \<open>File names\<close>

fun split_on :: "char \<Rightarrow> string \<Rightarrow> string list" where
  "split_on c [] = [[]]"
| "split_on c (x # xs) =
     (if x = c then [] # split_on c xs
      else (case split_on c xs of [] \<Rightarrow> [[x]] | p # ps \<Rightarrow> (x # p) # ps))"

text \<open>
  \<^verbatim>\<open>Path(key).name\<close> on a POSIX path: the last component that is neither empty nor
  \<^verbatim>\<open>"."\<close>, and the empty string when there is none.
\<close>

definition path_name :: "string \<Rightarrow> string" where
  "path_name key =
     (case filter (\<lambda>p. p \<noteq> [] \<and> p \<noteq> ''.'') (split_on CHR ''/'' key) of
        [] \<Rightarrow> []
      | p # ps \<Rightarrow> last (p # ps))"

section \<open>The random source\<close>

text \<open>
  \<^verbatim>\<open>random.sample\<close> and \<^verbatim>\<open>random.shuffle\<close> belong to Python's library, not to the
  repository. They read and advance the state of the process-wide generator, which the
  scripts never seed. The model takes them as parameters over a generator state \<open>'r\<close>.
  What the library documents about them is stated as a contract: a sample of size \<open>k\<close>
  is taken from \<open>k\<close> different positions of the population.
\<close>

type_synonym 'r sampler = "'r \<Rightarrow> string list \<Rightarrow> nat \<Rightarrow> string list \<times> 'r"

definition sample_contract :: "'r sampler \<Rightarrow> bool" where
  "sample_contract smp =
     (\<forall>r xs k. k \<le> length xs \<longrightarrow>
        length (fst (smp r xs k)) = k \<and> mset (fst (smp r xs k)) \<subseteq># mset xs)"

text \<open>
  \<^verbatim>\<open>sample(population, k)\<close>: \<^verbatim>\<open>ValueError\<close> when \<open>k\<close> is negative or larger than the
  population.
\<close>

definition py_sample :: "'r sampler \<Rightarrow> 'r \<Rightarrow> string list \<Rightarrow> int \<Rightarrow> py_error + (string list \<times> 'r)" where
  "py_sample smp r xs k =
     (if k < 0 \<or> int (length xs) < k then Inl ValueError else Inr (smp r xs (nat k)))"

section \<open>The curation passes (prepare-transgeo.py)\<close>

text \<open>
  The two variants of the script. The MK variant runs six passes, the BDAG variant the
  three in the middle; their capping passes differ in one guard.
\<close>

datatype script = MK | BDAG

subsection \<open>Duplicates\<close>

text \<open>
  \<^verbatim>\<open>image_names[Path(image_key).name].append(image_key)\<close> on a
  \<^verbatim>\<open>defaultdict(list)\<close>: a new name is appended to the table, a known one gets the
  key appended to its list.
\<close>

definition add_image_name :: "string \<Rightarrow> (string \<times> string list) list \<Rightarrow> (string \<times> string list) list" where
  "add_image_name key tbl =
     (let n = path_name key in
      if dict_has n tbl then map (\<lambda>(n', v). if n' = n then (n', v @ [key]) else (n', v)) tbl
      else tbl @ [(n, [key])])"

definition image_names :: "manifest \<Rightarrow> (string \<times> string list) list" where
  "image_names m = fold add_image_name (dict_keys (aerial m) @ dict_keys (ground m)) []"

text \<open>Every key but the first of every name that occurs more than once: \<^verbatim>\<open>v[1:]\<close>.\<close>

definition duplicate_keys :: "manifest \<Rightarrow> string list" where
  "duplicate_keys m = concat (map (\<lambda>(n, v). tl v) (filter (\<lambda>(n, v). length v > 1) (image_names m)))"

definition remove_duplicates :: "manifest \<Rightarrow> py_error + manifest" where
  "remove_duplicates m = for_each remove_image (duplicate_keys m) m"

subsection \<open>Names with spaces\<close>

definition remove_spaced :: "manifest \<Rightarrow> py_error + manifest" where
  "remove_spaced m =
     for_each (\<lambda>key m'. if CHR '' '' \<in> set (path_name key) then remove_image key m' else Inr m')
       (dict_keys (aerial m) @ dict_keys (ground m)) m"

subsection \<open>Non-panoramas\<close>

text \<open>
  \<^verbatim>\<open>list(filter(lambda x: (x[1]["size"]["w"] / x[1]["size"]["h"]) < ratio, ...))\<close> is
  evaluated in full before the first removal. The division raises on a height of zero.
  The quotient is taken in the rationals; the source rounds it to a float before the
  comparison.
\<close>

fun non_panoramas :: "rat \<Rightarrow> (string \<times> ground_item) list \<Rightarrow> py_error + string list" where
  "non_panoramas ratio [] = Inr []"
| "non_panoramas ratio ((k, gi) # rest) =
     (if snd (g_size gi) = 0 then Inl ZeroDivisionError
      else (case non_panoramas ratio rest of
              Inl e \<Rightarrow> Inl e
            | Inr ks \<Rightarrow>
                Inr (if of_int (fst (g_size gi)) / of_int (snd (g_size gi)) < ratio
                     then k # ks else ks)))"

definition remove_non_panoramas :: "rat \<Rightarrow> manifest \<Rightarrow> py_error + manifest" where
  "remove_non_panoramas ratio m =
     (case non_panoramas ratio (ground m) of
        Inl e \<Rightarrow> Inl e
      | Inr ks \<Rightarrow> for_each remove_ground_image ks m)"

subsection \<open>Maximum number of positive panoramas per aerial tile\<close>

text \<open>
  The guard of the capping step. MK:
  \<^verbatim>\<open>if args.max_positive_panoramas and len(aerial_item["positive"]) > args.max_positive_panoramas\<close>
  BDAG:
  \<^verbatim>\<open>if len(aerial_item["positive"]) > args.max_positive_panoramas\<close>
\<close>

definition cap_applies :: "script \<Rightarrow> int \<Rightarrow> string list \<Rightarrow> bool" where
  "cap_applies sc maxp pos =
     (case sc of MK \<Rightarrow> maxp \<noteq> 0 \<and> int (length pos) > maxp
               | BDAG \<Rightarrow> int (length pos) > maxp)"

text \<open>\<^verbatim>\<open>aerial_item["positive"] = panorama_sample\<close> on the item under \<open>akey\<close>.\<close>

definition set_positive :: "string \<Rightarrow> string list \<Rightarrow> manifest \<Rightarrow> manifest" where
  "set_positive akey s m =
     m\<lparr>aerial := map (\<lambda>(k, ai). if k = akey then (k, ai\<lparr>a_positive := s\<rparr>) else (k, ai)) (aerial m)\<rparr>"

text \<open>
  One iteration of \<^verbatim>\<open>for aerial_key, aerial_item in manifest["aerial"].items()\<close>. The
  item is the live object of the dictionary, so it is looked up in the current state.
  The leftovers are collected before the first removal
  (\<^verbatim>\<open>list(filter(lambda x: x not in panorama_sample, aerial_item["positive"]))\<close>).
\<close>

definition cap_tile :: "script \<Rightarrow> 'r sampler \<Rightarrow> int \<Rightarrow> string \<Rightarrow> manifest \<times> 'r \<Rightarrow> py_error + manifest \<times> 'r" where
  "cap_tile sc smp maxp akey st =
     (case map_of (aerial (fst st)) akey of
        None \<Rightarrow> Inl (KeyError akey)
      | Some ai \<Rightarrow>
          if cap_applies sc maxp (a_positive ai) then
            (case py_sample smp (snd st) (a_positive ai) maxp of
               Inl e \<Rightarrow> Inl e
             | Inr (panorama_sample, r') \<Rightarrow>
                 (case for_each remove_ground_image
                         (filter (\<lambda>x. x \<notin> set panorama_sample) (a_positive ai)) (fst st) of
                    Inl e \<Rightarrow> Inl e
                  | Inr m' \<Rightarrow> Inr (set_positive akey panorama_sample m', r')))
          else Inr st)"

definition cap_positives :: "script \<Rightarrow> 'r sampler \<Rightarrow> int \<Rightarrow> manifest \<times> 'r \<Rightarrow> py_error + manifest \<times> 'r" where
  "cap_positives sc smp maxp st = for_each (cap_tile sc smp maxp) (dict_keys (aerial (fst st))) st"

subsection \<open>Distractions\<close>

text \<open>Aerial keys whose item has two empty edge lists.\<close>

definition distractions :: "manifest \<Rightarrow> string list" where
  "distractions m =
     map fst (filter (\<lambda>(k, ai). a_positive ai = [] \<and> a_semi_positive ai = []) (aerial m))"

text \<open>
  \<^verbatim>\<open>int((1 - args.distraction_proportion) * len(distractions))\<close>; \<^verbatim>\<open>int\<close> truncates
  towards zero. The product is taken in the rationals; the source rounds it to a float.
\<close>

definition py_int :: "rat \<Rightarrow> int" where
  "py_int x = (if 0 \<le> x then \<lfloor>x\<rfloor> else \<lceil>x\<rceil>)"

definition remove_count :: "rat \<Rightarrow> nat \<Rightarrow> int" where
  "remove_count p n = py_int ((1 - p) * of_nat n)"

definition remove_distractions :: "'r sampler \<Rightarrow> rat \<Rightarrow> manifest \<times> 'r \<Rightarrow> py_error + manifest \<times> 'r" where
  "remove_distractions smp p st =
     (let ds = distractions (fst st) in
      case py_sample smp (snd st) ds (remove_count p (length ds)) of
        Inl e \<Rightarrow> Inl e
      | Inr (xs, r') \<Rightarrow>
          (case for_each remove_aerial_image xs (fst st) of
             Inl e \<Rightarrow> Inl e
           | Inr m' \<Rightarrow> Inr (m', r')))"

subsection \<open>Fewer than three semi-positives\<close>

definition remove_few_semi_positives :: "manifest \<Rightarrow> py_error + manifest" where
  "remove_few_semi_positives m =
     for_each remove_ground_image
       (map fst (filter (\<lambda>(k, gi). length (g_semi_positive gi) < 3) (ground m))) m"

subsection \<open>The passes in order\<close>

datatype curation_pass =
  Duplicates | Spaces | NonPanoramas | MaxPositives | Distractions | FewSemiPositives

definition lift_pass :: "(manifest \<Rightarrow> py_error + manifest) \<Rightarrow> manifest \<times> 'r \<Rightarrow> py_error + manifest \<times> 'r" where
  "lift_pass f st = (case f (fst st) of Inl e \<Rightarrow> Inl e | Inr m' \<Rightarrow> Inr (m', snd st))"

fun run_pass :: "script \<Rightarrow> 'r sampler \<Rightarrow> args \<Rightarrow> curation_pass \<Rightarrow> manifest \<times> 'r \<Rightarrow> py_error + manifest \<times> 'r" where
  "run_pass sc smp a Duplicates st = lift_pass remove_duplicates st"
| "run_pass sc smp a Spaces st = lift_pass remove_spaced st"
| "run_pass sc smp a NonPanoramas st = lift_pass (remove_non_panoramas (panorama_aspect_ratio a)) st"
| "run_pass sc smp a MaxPositives st = cap_positives sc smp (max_positive_panoramas a) st"
| "run_pass sc smp a Distractions st = remove_distractions smp (distraction_proportion a) st"
| "run_pass sc smp a FewSemiPositives st = lift_pass remove_few_semi_positives st"

definition passes_of :: "script \<Rightarrow> curation_pass list" where
  "passes_of sc =
     (case sc of
        MK \<Rightarrow> [Duplicates, Spaces, NonPanoramas, MaxPositives, Distractions, FewSemiPositives]
      | BDAG \<Rightarrow> [NonPanoramas, MaxPositives, Distractions])"

definition curate :: "script \<Rightarrow> 'r sampler \<Rightarrow> args \<Rightarrow> manifest \<times> 'r \<Rightarrow> py_error + manifest \<times> 'r" where
  "curate sc smp a st = for_each (run_pass sc smp a) (passes_of sc) st"

section \<open>Bidirectional consistency\<close>

text \<open>
  The invariant of the specification, read on dictionary lookups: for an aerial key and
  a ground key that are both present, the edge is recorded on both sides or on neither,
  for positive and for semi-positive edges alike; and no edge list holds a key both as
  positive and as semi-positive.
\<close>

definition consistent :: "manifest \<Rightarrow> bool" where
  "consistent m =
     ((\<forall>a ai g gi. map_of (aerial m) a = Some ai \<and> map_of (ground m) g = Some gi \<longrightarrow>
         (g \<in> set (a_positive ai) \<longleftrightarrow> a \<in> set (g_positive gi)) \<and>
         (g \<in> set (a_semi_positive ai) \<longleftrightarrow> a \<in> set (g_semi_positive gi)))
      \<and> (\<forall>a ai. map_of (aerial m) a = Some ai \<longrightarrow>
            set (a_positive ai) \<inter> set (a_semi_positive ai) = {})
      \<and> (\<forall>g gi. map_of (ground m) g = Some gi \<longrightarrow>
            set (g_positive gi) \<inter> set (g_semi_positive gi) = {}))"

text \<open>
  What a manifest is by construction: dictionary keys are unique, and no edge list
  names a key twice (the builder appends each pair once).
\<close>

definition well_formed :: "manifest \<Rightarrow> bool" where
  "well_formed m =
     (distinct (dict_keys (aerial m)) \<and> distinct (dict_keys (ground m))
      \<and> (\<forall>(a, ai) \<in> set (aerial m). distinct (a_positive ai) \<and> distinct (a_semi_positive ai))
      \<and> (\<forall>(g, gi) \<in> set (ground m). distinct (g_positive gi) \<and> distinct (g_semi_positive gi)))"

text \<open>The key \<open>k\<close> occurs nowhere in the manifest as a ground image.\<close>

definition ground_absent :: "string \<Rightarrow> manifest \<Rightarrow> bool" where
  "ground_absent g m =
     (\<not> dict_has g (ground m)
      \<and> (\<forall>(a, ai) \<in> set (aerial m). g \<notin> set (a_positive ai) \<and> g \<notin> set (a_semi_positive ai)))"

definition aerial_absent :: "string \<Rightarrow> manifest \<Rightarrow> bool" where
  "aerial_absent a m =
     (\<not> dict_has a (aerial m)
      \<and> (\<forall>(g, gi) \<in> set (ground m). a \<notin> set (g_positive gi) \<and> a \<notin> set (g_semi_positive gi)))"

text \<open>Both together: what every pass is handed and hands on.\<close>

definition manifest_ok :: "manifest \<Rightarrow> bool" where
  "manifest_ok m = (consistent m \<and> well_formed m)"

text \<open>
  How a manifest \<open>m'\<close> relates to an earlier manifest \<open>m\<close> when ground images have been
  pruned in between: the tiles are the same, no positive list has grown, a ground image
  that left a positive list has left the manifest, and a ground image that was absent
  stays absent.
\<close>

definition ground_pruned :: "manifest \<Rightarrow> manifest \<Rightarrow> bool" where
  "ground_pruned m m' =
     (dict_keys (aerial m') = dict_keys (aerial m)
      \<and> (\<forall>k ai'. map_of (aerial m') k = Some ai' \<longrightarrow>
            (\<exists>ai. map_of (aerial m) k = Some ai
               \<and> set (a_positive ai') \<subseteq> set (a_positive ai)
               \<and> length (a_positive ai') \<le> length (a_positive ai)
               \<and> (\<forall>g. g \<in> set (a_positive ai) \<and> g \<notin> set (a_positive ai') \<longrightarrow>
                      ground_absent g m')))
      \<and> (\<forall>g. ground_absent g m \<longrightarrow> ground_absent g m'))"


section \<open>The split generator (prepare-transgeo.py, inside the archive block)\<close>

subsection \<open>Episode numbers\<close>

text \<open>
  \<^verbatim>\<open>\d\<close> on the characters of a file name. (On code points beyond Latin-1 the pattern
  also accepts the decimal digits of other scripts; keys are taken to be ASCII.)
\<close>

definition is_digit :: "char \<Rightarrow> bool" where
  "is_digit c = (c \<in> set ''0123456789'')"

text \<open>The pattern \<^verbatim>\<open>_\d{4}_\<close> matched at the head of the text; the result is the digits.\<close>

fun sol_at :: "string \<Rightarrow> string option" where
  "sol_at (u # d1 # d2 # d3 # d4 # v # rest) =
     (if u = CHR ''_'' \<and> is_digit d1 \<and> is_digit d2 \<and> is_digit d3 \<and> is_digit d4 \<and> v = CHR ''_''
      then Some [d1, d2, d3, d4] else None)"
| "sol_at _ = None"

text \<open>
  \<^verbatim>\<open>re.findall('_\d{4}_', key)[0][1:][:-1]\<close>: the leftmost match without its two
  underscores, \<open>None\<close> when the list of matches is empty.
\<close>

fun find_sol :: "string \<Rightarrow> string option" where
  "find_sol [] = None"
| "find_sol (c # cs) = (case sol_at (c # cs) of Some ds \<Rightarrow> Some ds | None \<Rightarrow> find_sol cs)"

definition digit_value :: "char \<Rightarrow> int" where
  "digit_value c = int (of_char c) - 48"

text \<open>\<^verbatim>\<open>int(s)\<close> on a string of digits.\<close>

definition int_of_digits :: "string \<Rightarrow> int" where
  "int_of_digits s = foldl (\<lambda>n c. 10 * n + digit_value c) 0 s"

text \<open>
  \<^verbatim>\<open>int(re.findall('_\d{4}_', key)[0][1:][:-1])\<close>: indexing the empty list of matches
  raises \<^verbatim>\<open>IndexError\<close>, which nothing catches.
\<close>

definition sol_num :: "string \<Rightarrow> py_error + int" where
  "sol_num key = (case find_sol key of None \<Rightarrow> Inl IndexError | Some ds \<Rightarrow> Inr (int_of_digits ds))"

text \<open>
  What the specification calls a key with an episode segment: somewhere in the key an
  underscore, four digits and an underscore follow each other.
\<close>

definition has_sol_segment :: "string \<Rightarrow> bool" where
  "has_sol_segment key =
     (\<exists>pre ds post. key = pre @ ''_'' @ ds @ ''_'' @ post \<and> length ds = 4 \<and> (\<forall>d \<in> set ds. is_digit d))"

subsection \<open>The episode-grouped split (MK)\<close>

text \<open>The first loop: \<^verbatim>\<open>sols.append(sol_num)\<close> for every ground key.\<close>

fun collect_sols :: "string list \<Rightarrow> py_error + int list" where
  "collect_sols [] = Inr []"
| "collect_sols (k # ks) =
     (case sol_num k of
        Inl e \<Rightarrow> Inl e
      | Inr n \<Rightarrow> (case collect_sols ks of Inl e \<Rightarrow> Inl e | Inr ns \<Rightarrow> Inr (n # ns)))"

text \<open>
  \<^verbatim>\<open>random.shuffle\<close>, a parameter like the sampler. \<^verbatim>\<open>[*set(sols)]\<close> lists the
  different episode numbers in an order the interpreter chooses, and the list is
  shuffled at once; the model hands the shuffler the different numbers in the order in
  which \<^const>\<open>remdups\<close> leaves them.
\<close>

type_synonym 'r shuffler = "'r \<Rightarrow> int list \<Rightarrow> int list \<times> 'r"

text \<open>\<^verbatim>\<open>xs[:k]\<close>\<close>

definition py_take :: "int \<Rightarrow> 'a list \<Rightarrow> 'a list" where
  "py_take k xs = (if 0 \<le> k then take (nat k) xs else take (length xs - nat (- k)) xs)"

text \<open>
  The second loop: a key whose episode number is among the chosen ones goes to the train
  list, any other key to the test list. The episode number is extracted again, in the
  same way.
\<close>

fun assign_sols :: "int list \<Rightarrow> string list \<Rightarrow> py_error + (string list \<times> string list)" where
  "assign_sols sols [] = Inr ([], [])"
| "assign_sols sols (k # ks) =
     (case sol_num k of
        Inl e \<Rightarrow> Inl e
      | Inr n \<Rightarrow>
          (case assign_sols sols ks of
             Inl e \<Rightarrow> Inl e
           | Inr (train_set, test_set) \<Rightarrow>
               if n \<in> set sols then Inr (k # train_set, test_set)
               else Inr (train_set, k # test_set)))"

definition episode_split ::
  "'r shuffler \<Rightarrow> rat \<Rightarrow> 'r \<Rightarrow> manifest \<Rightarrow> py_error + ((string list \<times> string list) \<times> 'r)" where
  "episode_split shuffle p r m =
     (case collect_sols (dict_keys (ground m)) of
        Inl e \<Rightarrow> Inl e
      | Inr sols \<Rightarrow>
          (let sols1 = remdups sols;
               sols_in_training = py_int (of_int (int (length sols1)) * p);
               (sols2, r') = shuffle r sols1;
               sols3 = py_take sols_in_training sols2
           in case assign_sols sols3 (dict_keys (ground m)) of
                Inl e \<Rightarrow> Inl e
              | Inr sets \<Rightarrow> Inr (sets, r')))"

subsection \<open>The random split (BDAG)\<close>

text \<open>
  \<^verbatim>\<open>ground_images\<close>: the ground keys whose file exists under the ground root; a missing
  file is reported and skipped. The file system is the parameter \<open>file_exists\<close>.
\<close>

definition ground_images :: "(string \<Rightarrow> bool) \<Rightarrow> manifest \<Rightarrow> string list" where
  "ground_images file_exists m = filter file_exists (dict_keys (ground m))"

text \<open>
  \<^verbatim>\<open>train_set = set(sample(ground_images, int(len(ground_images) * args.train_proportion)))\<close>
  \<^verbatim>\<open>test_set = set(ground_images) - train_set\<close>
\<close>

definition random_split ::
  "'r sampler \<Rightarrow> (string \<Rightarrow> bool) \<Rightarrow> rat \<Rightarrow> 'r \<Rightarrow> manifest \<Rightarrow>
   py_error + ((string set \<times> string set) \<times> 'r)" where
  "random_split smp file_exists p r m =
     (let gs = ground_images file_exists m in
      case py_sample smp r gs (py_int (of_int (int (length gs)) * p)) of
        Inl e \<Rightarrow> Inl e
      | Inr (s, r') \<Rightarrow> Inr ((set s, set gs - set s), r'))"

subsection \<open>Correspondence lines\<close>

text \<open>Decimal notation of an integer, as an f-string prints it.\<close>

definition digit_char :: "nat \<Rightarrow> char" where
  "digit_char d = ''0123456789'' ! d"

fun str_nat :: "nat \<Rightarrow> string" where
  "str_nat n = (if n < 10 then [digit_char n] else str_nat (n div 10) @ [digit_char (n mod 10)])"

definition str_int :: "int \<Rightarrow> string" where
  "str_int i = (if i < 0 then CHR ''-'' # str_nat (nat (- i)) else str_nat (nat i))"

text \<open>
  \<^verbatim>\<open>t_px\<close> maps a longitude and a latitude to the pixel \<open>(col, row)\<close> of the reference
  raster. It is computed by the projection and raster libraries and is a parameter here.
  \<^verbatim>\<open>ground_aerial_offset_px\<close> subtracts the pixel of the tile centre from the pixel of
  the ground location; the line shows component 1 (rows) before component 0 (columns).
\<close>

type_synonym pixel_map = "lonlat \<Rightarrow> int \<times> int"

definition ground_aerial_offset_px :: "pixel_map \<Rightarrow> lonlat \<Rightarrow> lonlat \<Rightarrow> int \<times> int" where
  "ground_aerial_offset_px t_px ground_loc aerial_loc =
     (fst (t_px ground_loc) - fst (t_px aerial_loc), snd (t_px ground_loc) - snd (t_px aerial_loc))"

definition offset_text :: "pixel_map \<Rightarrow> lonlat \<Rightarrow> lonlat \<Rightarrow> string" where
  "offset_text t_px ground_loc aerial_loc =
     (let offset_px = ground_aerial_offset_px t_px ground_loc aerial_loc
      in str_int (snd offset_px) @ '' '' @ str_int (fst offset_px))"

text \<open>
  The innermost loop, over \<^verbatim>\<open>ground_item["semi-positive"][0:3]\<close>: each step looks the
  tile up (\<^verbatim>\<open>KeyError\<close> when it is not in the manifest) and appends to the buffer.
\<close>

definition write_semi_positive ::
  "pixel_map \<Rightarrow> manifest \<Rightarrow> ground_item \<Rightarrow> string \<Rightarrow> string \<Rightarrow> py_error + string" where
  "write_semi_positive t_px m ground_item semi_positive_aerial buf =
     (case map_of (aerial m) semi_positive_aerial of
        None \<Rightarrow> Inl (KeyError semi_positive_aerial)
      | Some semi_positive_item \<Rightarrow>
          Inr (buf @ '' '' @ path_name semi_positive_aerial @ '' ''
                 @ offset_text t_px (g_location ground_item) (a_center semi_positive_item)))"

text \<open>
  The loop over \<^verbatim>\<open>ground_item["positive"]\<close>. The train loop of the MK variant
  (\<open>strict\<close>) leaves the iteration after the first write when there are fewer than three
  semi-positives, before the line is ended; the other three loops have no such test.
\<close>

definition write_positive ::
  "bool \<Rightarrow> pixel_map \<Rightarrow> manifest \<Rightarrow> string \<Rightarrow> ground_item \<Rightarrow> string \<Rightarrow> string \<Rightarrow> py_error + string" where
  "write_positive strict t_px m ground_name ground_item positive_aerial buf =
     (case map_of (aerial m) positive_aerial of
        None \<Rightarrow> Inl (KeyError positive_aerial)
      | Some positive_item \<Rightarrow>
          (let buf1 = buf @ ground_name @ '' '' @ path_name positive_aerial @ '' ''
                        @ offset_text t_px (g_location ground_item) (a_center positive_item)
           in if strict \<and> length (g_semi_positive ground_item) < 3 then Inr buf1
              else (case for_each (write_semi_positive t_px m ground_item)
                            (take 3 (g_semi_positive ground_item)) buf1 of
                      Inl e \<Rightarrow> Inl e
                    | Inr buf2 \<Rightarrow> Inr (buf2 @ [CHR 0x0A]))))"

definition write_ground ::
  "bool \<Rightarrow> pixel_map \<Rightarrow> manifest \<Rightarrow> string \<Rightarrow> string \<Rightarrow> py_error + string" where
  "write_ground strict t_px m ground_image buf =
     (case map_of (ground m) ground_image of
        None \<Rightarrow> Inl (KeyError ground_image)
      | Some ground_item \<Rightarrow>
          for_each (write_positive strict t_px m (path_name ground_image) ground_item)
            (g_positive ground_item) buf)"

text \<open>The text of one split file, for the ground keys in the order the loop meets them.\<close>

definition split_file :: "bool \<Rightarrow> pixel_map \<Rightarrow> manifest \<Rightarrow> string list \<Rightarrow> py_error + string" where
  "split_file strict t_px m keys = for_each (write_ground strict t_px m) keys []"

subsection \<open>The correspondence record of the specification\<close>

text \<open>
  One line for a ground image and one of its positive tiles: the two names, the offset,
  then name and offset of at most three semi-positive tiles. Tiles are given by name and
  centre.
\<close>

definition semi_text :: "pixel_map \<Rightarrow> lonlat \<Rightarrow> string \<times> lonlat \<Rightarrow> string" where
  "semi_text t_px ground_loc s = '' '' @ fst s @ '' '' @ offset_text t_px ground_loc (snd s)"

definition record_line ::
  "pixel_map \<Rightarrow> string \<Rightarrow> lonlat \<Rightarrow> string \<times> lonlat \<Rightarrow> (string \<times> lonlat) list \<Rightarrow> string" where
  "record_line t_px ground_name ground_loc pos semis =
     ground_name @ '' '' @ fst pos @ '' '' @ offset_text t_px ground_loc (snd pos)
     @ concat (map (semi_text t_px ground_loc) (take 3 semis))
     @ [CHR 0x0A]"

text \<open>Name and centre of the tile under a key.\<close>

definition tile_of :: "manifest \<Rightarrow> string \<Rightarrow> (string \<times> lonlat) option" where
  "tile_of m key = map_option (\<lambda>ai. (path_name key, a_center ai)) (map_of (aerial m) key)"

text \<open>The lines of one ground image: one for every entry of its positive list.\<close>

definition record_lines :: "pixel_map \<Rightarrow> manifest \<Rightarrow> string \<Rightarrow> string list" where
  "record_lines t_px m key =
     (case map_of (ground m) key of
        None \<Rightarrow> []
      | Some gi \<Rightarrow>
          map (\<lambda>pa. record_line t_px (path_name key) (g_location gi) (the (tile_of m pa))
                      (map (\<lambda>sa. the (tile_of m sa)) (take 3 (g_semi_positive gi))))
            (g_positive gi))"

text \<open>
  Every edge the lines of these ground keys need leads to a tile of the manifest: all
  positives, and the first three semi-positives of a ground image that has a positive.
\<close>

definition edges_resolve :: "manifest \<Rightarrow> string list \<Rightarrow> bool" where
  "edges_resolve m keys =
     (\<forall>k \<in> set keys. \<exists>gi. map_of (ground m) k = Some gi
        \<and> (\<forall>pa \<in> set (g_positive gi). dict_has pa (aerial m))
        \<and> (g_positive gi \<noteq> [] \<longrightarrow> (\<forall>sa \<in> set (take 3 (g_semi_positive gi)). dict_has sa (aerial m))))"

text \<open>
  Every ground image among the keys that has a positive has at least three
  semi-positives (what the last curation pass of the MK variant leaves).
\<close>

definition enough_semi_positives :: "manifest \<Rightarrow> string list \<Rightarrow> bool" where
  "enough_semi_positives m keys =
     (\<forall>k \<in> set keys. \<forall>gi. map_of (ground m) k = Some gi \<and> g_positive gi \<noteq> [] \<longrightarrow>
        3 \<le> length (g_semi_positive gi))"

section \<open>The label parser (image-manifest.py, the compiled patterns)\<close>

text \<open>
  The patterns are applied with \<^verbatim>\<open>re.match\<close>: the match starts at the first character
  of the name and may end before its last. Every repetition in them is followed by a
  character it cannot take itself, so the longest run is the only one that can succeed,
  and the matcher below never has to back up. A successful match yields the captured
  groups, which are pieces of the name: strings.
\<close>

text \<open>\<^verbatim>\<open>\d+\<close>: a run of digits, not empty, and the rest of the text.\<close>

definition match_digits :: "string \<Rightarrow> (string \<times> string) option" where
  "match_digits s =
     (if takeWhile is_digit s = [] then None
      else Some (takeWhile is_digit s, dropWhile is_digit s))"

text \<open>\<^verbatim>\<open>-?\d+\.\d+\<close>\<close>

definition match_decimal :: "string \<Rightarrow> (string \<times> string) option" where
  "match_decimal s =
     (let (sign, s1) = (case s of c # cs \<Rightarrow> if c = CHR ''-'' then (''-'', cs) else ([], s)
                                 | [] \<Rightarrow> ([], s))
      in case match_digits s1 of
           None \<Rightarrow> None
         | Some (ipart, s2) \<Rightarrow>
             (case s2 of
                [] \<Rightarrow> None
              | c # s3 \<Rightarrow>
                  if c \<noteq> CHR ''.'' then None
                  else (case match_digits s3 of
                          None \<Rightarrow> None
                        | Some (fpart, s4) \<Rightarrow> Some (sign @ ipart @ ''.'' @ fpart, s4))))"

text \<open>\<open>n\<close> times an underscore and a decimal: \<^verbatim>\<open>_(-?\d+\.\d+)\<close>.\<close>

fun match_coords :: "nat \<Rightarrow> string \<Rightarrow> (string list \<times> string) option" where
  "match_coords 0 s = Some ([], s)"
| "match_coords (Suc n) s =
     (case s of
        [] \<Rightarrow> None
      | c # s1 \<Rightarrow>
          if c \<noteq> CHR ''_'' then None
          else (case match_decimal s1 of
                  None \<Rightarrow> None
                | Some (d, s2) \<Rightarrow>
                    (case match_coords n s2 of
                       None \<Rightarrow> None
                     | Some (ds, s3) \<Rightarrow> Some (d # ds, s3))))"

text \<open>A literal at the head of the text.\<close>

definition starts_with :: "string \<Rightarrow> string \<Rightarrow> bool" where
  "starts_with lit s = (take (length lit) s = lit)"

text \<open>
  \<^verbatim>\<open>aerial_label_re.match(name)\<close>: the identifier, ten coordinates, \<^verbatim>\<open>.png\<close>. The
  groups, in the order of the pattern: \<open>id\<close>, \<open>center_lon\<close>, \<open>center_lat\<close>,
  \<open>min_pos_lon\<close>, \<open>max_pos_lat\<close>, \<open>max_pos_lon\<close>, \<open>min_pos_lat\<close>, \<open>min_semi_lon\<close>,
  \<open>max_semi_lat\<close>, \<open>max_semi_lon\<close>, \<open>min_semi_lat\<close>.
\<close>

definition aerial_label_match :: "string \<Rightarrow> string list option" where
  "aerial_label_match name =
     (case match_digits name of
        None \<Rightarrow> None
      | Some (ident, s1) \<Rightarrow>
          (case match_coords 10 s1 of
             None \<Rightarrow> None
           | Some (coords, s2) \<Rightarrow>
               if starts_with ''.png'' s2 then Some (ident # coords) else None))"

text \<open>
  \<^verbatim>\<open>.*\.png\<close>: any characters but a line break, then \<^verbatim>\<open>.png\<close>, somewhere in the
  rest.
\<close>

fun any_then_png :: "string \<Rightarrow> bool" where
  "any_then_png [] = False"
| "any_then_png (c # cs) =
     (starts_with ''.png'' (c # cs) \<or> (c \<noteq> CHR 0x0A \<and> any_then_png cs))"

text \<open>
  \<^verbatim>\<open>ground_label_re.match(name)\<close> with the pattern
  \<^verbatim>\<open>LAT_(?P<lat>-?\d+\.\d+)LONG_(?P<lon>-?\d+\.\d+).*\.png\<close>; the groups are \<open>lat\<close> and
  \<open>lon\<close>.
\<close>

definition ground_label_match :: "string \<Rightarrow> (string \<times> string) option" where
  "ground_label_match name =
     (if \<not> starts_with ''LAT_'' name then None
      else (case match_decimal (drop 4 name) of
              None \<Rightarrow> None
            | Some (lat, s1) \<Rightarrow>
                if \<not> starts_with ''LONG_'' s1 then None
                else (case match_decimal (drop 5 s1) of
                        None \<Rightarrow> None
                      | Some (lon, s2) \<Rightarrow> if any_then_png s2 then Some (lat, lon) else None)))"

section \<open>The manifest builder (image-manifest.py)\<close>

text \<open>
  \<^verbatim>\<open>manifest["aerial"][key]\<close> on the auto-creating dictionary, followed by assignments
  to every field: a known key keeps its place and gets the new item, a new key is
  appended.
\<close>

definition dict_set :: "string \<Rightarrow> 'v \<Rightarrow> (string \<times> 'v) list \<Rightarrow> (string \<times> 'v) list" where
  "dict_set k v d =
     (if dict_has k d then map (\<lambda>(k', v'). if k' = k then (k', v) else (k', v')) d
      else d @ [(k, v)])"

text \<open>
  An image file as the builder sees it: its path relative to the directory that was
  searched, and the size the image library reports for it.
\<close>

type_synonym image_file = "string \<times> (int \<times> int)"

text \<open>
  The body of the first loop. A name that does not match is reported on the error stream
  and skipped (\<^verbatim>\<open>continue\<close>). The fields are the groups as they are.
\<close>

definition add_aerial :: "image_file \<Rightarrow> manifest \<Rightarrow> manifest" where
  "add_aerial f m =
     (case aerial_label_match (path_name (fst f)) of
        None \<Rightarrow> m
      | Some groups \<Rightarrow>
          m\<lparr>aerial := dict_set (fst f)
               \<lparr>a_id = groups ! 0, a_size = snd f,
                a_center = (groups ! 1, groups ! 2),
                a_positive_boundary = ((groups ! 3, groups ! 4), (groups ! 5, groups ! 6)),
                a_semi_positive_boundary = ((groups ! 7, groups ! 8), (groups ! 9, groups ! 10)),
                a_positive = [], a_semi_positive = []\<rparr>
               (aerial m)\<rparr>)"

text \<open>
  \<^verbatim>\<open>is_positive\<close> and \<^verbatim>\<open>is_semi_positive\<close>. A boundary is the pair of corners
  \<open>((min_lon, max_lat), (max_lon, min_lat))\<close>. The operands of \<^verbatim>\<open><=\<close> are the strings of
  the manifest, so the comparison is the lexicographic one on characters.
\<close>

definition inside :: "lonlat \<times> lonlat \<Rightarrow> lonlat \<Rightarrow> bool" where
  "inside boundary location =
     ((fst (fst boundary) \<le> fst location \<and> fst location \<le> fst (snd boundary))
      \<and> (snd (snd boundary) \<le> snd location \<and> snd location \<le> snd (fst boundary)))"

definition is_positive :: "ground_item \<Rightarrow> aerial_item \<Rightarrow> bool" where
  "is_positive ground_item aerial_item = inside (a_positive_boundary aerial_item) (g_location ground_item)"

definition is_semi_positive :: "ground_item \<Rightarrow> aerial_item \<Rightarrow> bool" where
  "is_semi_positive ground_item aerial_item =
     inside (a_semi_positive_boundary aerial_item) (g_location ground_item)"

text \<open>
  One iteration of \<^verbatim>\<open>for k, aerial_item in manifest["aerial"].items()\<close> for the ground
  image under \<open>ground_key\<close>: the \<^verbatim>\<open>if\<close> appends to the two positive lists, the
  \<^verbatim>\<open>elif\<close> to the two semi-positive lists.
\<close>

definition link :: "string \<Rightarrow> string \<Rightarrow> manifest \<Rightarrow> manifest" where
  "link ground_key k m =
     (case (map_of (ground m) ground_key, map_of (aerial m) k) of
        (Some ground_item, Some aerial_item) \<Rightarrow>
          if is_positive ground_item aerial_item then
            m\<lparr>ground := dict_set ground_key
                 (ground_item\<lparr>g_positive := g_positive ground_item @ [k]\<rparr>) (ground m),
              aerial := dict_set k
                 (aerial_item\<lparr>a_positive := a_positive aerial_item @ [ground_key]\<rparr>) (aerial m)\<rparr>
          else if is_semi_positive ground_item aerial_item then
            m\<lparr>ground := dict_set ground_key
                 (ground_item\<lparr>g_semi_positive := g_semi_positive ground_item @ [k]\<rparr>) (ground m),
              aerial := dict_set k
                 (aerial_item\<lparr>a_semi_positive := a_semi_positive aerial_item @ [ground_key]\<rparr>)
                 (aerial m)\<rparr>
          else m
      | _ \<Rightarrow> m)"

text \<open>
  The body of the second loop: skip a name that does not match, otherwise enter the
  ground image with empty edge lists and visit every aerial item.
\<close>

definition add_ground :: "image_file \<Rightarrow> manifest \<Rightarrow> manifest" where
  "add_ground f m =
     (case ground_label_match (path_name (fst f)) of
        None \<Rightarrow> m
      | Some (lat, lon) \<Rightarrow>
          (let m1 = m\<lparr>ground := dict_set (fst f)
                        \<lparr>g_size = snd f, g_location = (lon, lat),
                         g_positive = [], g_semi_positive = []\<rparr> (ground m)\<rparr>
           in fold (link (fst f)) (dict_keys (aerial m1)) m1))"

definition build :: "image_file list \<Rightarrow> image_file list \<Rightarrow> manifest" where
  "build aerial_files ground_files =
     fold add_ground ground_files (fold add_aerial aerial_files \<lparr>aerial = [], ground = []\<rparr>)"

section \<open>The reference classification of the specification\<close>

text \<open>
  The number a decimal literal denotes: sign, integer part and fraction.
\<close>

definition decimal_value :: "string \<Rightarrow> rat" where
  "decimal_value s =
     (let neg = (s \<noteq> [] \<and> hd s = CHR ''-'');
          body = (if neg then tl s else s);
          ipart = takeWhile is_digit body;
          fpart = drop (Suc (length ipart)) body;
          v = of_int (int_of_digits ipart) + of_int (int_of_digits fpart) / 10 ^ length fpart
      in if neg then - v else v)"

datatype correspondence = Positive | SemiPositive | Unrelated

text \<open>
  A location lies inside a rectangle when its longitude and its latitude, as numbers, lie
  between the bounds, the bounds included.
\<close>

definition inside_rectangle :: "lonlat \<times> lonlat \<Rightarrow> lonlat \<Rightarrow> bool" where
  "inside_rectangle boundary location =
     (decimal_value (fst (fst boundary)) \<le> decimal_value (fst location)
      \<and> decimal_value (fst location) \<le> decimal_value (fst (snd boundary))
      \<and> decimal_value (snd (snd boundary)) \<le> decimal_value (snd location)
      \<and> decimal_value (snd location) \<le> decimal_value (snd (fst boundary)))"

text \<open>Positive first, then semi-positive, else unrelated.\<close>

definition reference_correspondence :: "ground_item \<Rightarrow> aerial_item \<Rightarrow> correspondence" where
  "reference_correspondence gi ai =
     (if inside_rectangle (a_positive_boundary ai) (g_location gi) then Positive
      else if inside_rectangle (a_semi_positive_boundary ai) (g_location gi) then SemiPositive
      else Unrelated)"

text \<open>What the manifest records for a pair of keys.\<close>

definition recorded_correspondence :: "manifest \<Rightarrow> string \<Rightarrow> string \<Rightarrow> correspondence option" where
  "recorded_correspondence m g a =
     (case (map_of (ground m) g, map_of (aerial m) a) of
        (Some gi, Some ai) \<Rightarrow>
          Some (if a \<in> set (g_positive gi) \<and> g \<in> set (a_positive ai) then Positive
                else if a \<in> set (g_semi_positive gi) \<and> g \<in> set (a_semi_positive ai)
                then SemiPositive else Unrelated)
      | _ \<Rightarrow> None)"



section \<open>What the builder maintains\<close>

text \<open>
  Every key in an edge list of a tile names a ground image of the manifest. The
  builder appends a ground key to a tile only while it is entering that ground image.
\<close>

definition edges_closed :: "manifest \<Rightarrow> bool" where
  "edges_closed m =
     (\<forall>a ai. map_of (aerial m) a = Some ai \<longrightarrow>
        (\<forall>g \<in> set (a_positive ai) \<union> set (a_semi_positive ai). dict_has g (ground m)))"

text \<open>
  The state of the inner loop of the builder while the ground image \<open>g\<close> is being linked
  and the tiles \<open>ks\<close> are still to be visited: none of them is linked with \<open>g\<close> yet.
\<close>

definition link_ready :: "string \<Rightarrow> string list \<Rightarrow> manifest \<Rightarrow> bool" where
  "link_ready g ks m =
     (manifest_ok m \<and> edges_closed m
      \<and> (\<exists>gi. map_of (ground m) g = Some gi
            \<and> (\<forall>k \<in> set ks. k \<notin> set (g_positive gi) \<and> k \<notin> set (g_semi_positive gi)))
      \<and> (\<forall>k \<in> set ks. \<exists>ai. map_of (aerial m) k = Some ai
            \<and> g \<notin> set (a_positive ai) \<and> g \<notin> set (a_semi_positive ai)))"

text \<open>What holds between two ground images of the second loop.\<close>

definition built_ok :: "manifest \<Rightarrow> bool" where
  "built_ok m = (manifest_ok m \<and> edges_closed m)"

text \<open>The state of the first loop of the builder: tiles only, with empty edge lists.\<close>

definition tiles_unlinked :: "manifest \<Rightarrow> bool" where
  "tiles_unlinked m =
     (ground m = [] \<and> distinct (dict_keys (aerial m))
      \<and> (\<forall>a ai. map_of (aerial m) a = Some ai \<longrightarrow> a_positive ai = [] \<and> a_semi_positive ai = []))"

section \<open>Sample data\<close>

text \<open>
  Two deterministic stand-ins for \<^verbatim>\<open>random.sample\<close>, both within its contract: the
  first \<open>k\<close> and the last \<open>k\<close> elements of the population. They ignore the generator
  state.
\<close>

definition first_k :: "unit sampler" where
  "first_k r xs k = (take k xs, r)"

definition last_k :: "unit sampler" where
  "last_k r xs k = (drop (length xs - k) xs, r)"

definition example_args :: args where
  "example_args = \<lparr>panorama_aspect_ratio = 2, max_positive_panoramas = 2,
                    distraction_proportion = 1, train_proportion = 1/2\<rparr>"

definition example_tile :: "string list \<Rightarrow> string list \<Rightarrow> aerial_item" where
  "example_tile pos semi =
     \<lparr>a_id = ''1'', a_size = (640, 640), a_center = (''9.5'', ''50.5''),
      a_positive_boundary = ((''9.0'', ''51.0''), (''9.9'', ''50.0'')),
      a_semi_positive_boundary = ((''8.0'', ''52.0''), (''9.9'', ''49.0'')),
      a_positive = pos, a_semi_positive = semi\<rparr>"

definition example_ground :: "string list \<Rightarrow> string list \<Rightarrow> ground_item" where
  "example_ground pos semi =
     \<lparr>g_size = (4096, 1024), g_location = (''9.5'', ''50.5''),
      g_positive = pos, g_semi_positive = semi\<rparr>"

text \<open>
  Two tiles that share the ground image \<open>g3\<close>; \<open>g1\<close> is positive for \<open>t1\<close> and
  semi-positive for \<open>t2\<close>.
\<close>

definition example_manifest :: manifest where
  "example_manifest =
     \<lparr>aerial = [(''t1'', example_tile [''g1'', ''g2'', ''g3''] []),
                (''t2'', example_tile [''g3'', ''g4'', ''g5''] [''g1''])],
      ground = [(''g1'', example_ground [''t1''] [''t2'']),
                (''g2'', example_ground [''t1''] []),
                (''g3'', example_ground [''t1'', ''t2''] []),
                (''g4'', example_ground [''t2''] []),
                (''g5'', example_ground [''t2''] [])]\<rparr>"

text \<open>The sample manifest after capping at two positives, keeping the first two.\<close>

definition example_capped_first :: manifest where
  "example_capped_first =
     \<lparr>aerial = [(''t1'', example_tile [''g1'', ''g2''] []),
                (''t2'', example_tile [''g4'', ''g5''] [''g1''])],
      ground = [(''g1'', example_ground [''t1''] [''t2'']),
                (''g2'', example_ground [''t1''] []),
                (''g4'', example_ground [''t2''] []),
                (''g5'', example_ground [''t2''] [])]\<rparr>"

text \<open>The same, keeping the last two.\<close>

definition example_capped_last :: manifest where
  "example_capped_last =
     \<lparr>aerial = [(''t1'', example_tile [''g2''] []),
                (''t2'', example_tile [''g4'', ''g5''] [])],
      ground = [(''g2'', example_ground [''t1''] []),
                (''g4'', example_ground [''t2''] []),
                (''g5'', example_ground [''t2''] [])]\<rparr>"

text \<open>
  The scenario of the specification: one tile with five positives, two of which are
  semi-positive for a second tile; and what capping at two leaves of it.
\<close>

definition example_five :: manifest where
  "example_five =
     \<lparr>aerial = [(''t1'', example_tile [''g1'', ''g2'', ''g3'', ''g4'', ''g5''] []),
                (''t2'', example_tile [] [''g3'', ''g4''])],
      ground = [(''g1'', example_ground [''t1''] []),
                (''g2'', example_ground [''t1''] []),
                (''g3'', example_ground [''t1''] [''t2'']),
                (''g4'', example_ground [''t1''] [''t2'']),
                (''g5'', example_ground [''t1''] [])]\<rparr>"

definition example_five_capped :: manifest where
  "example_five_capped =
     \<lparr>aerial = [(''t1'', example_tile [''g1'', ''g2''] []),
                (''t2'', example_tile [] [])],
      ground = [(''g1'', example_ground [''t1''] []),
                (''g2'', example_ground [''t1''] [])]\<rparr>"

text \<open>
  A stand-in for \<^verbatim>\<open>random.shuffle\<close>, and a manifest whose ground keys carry the
  episode numbers 101, 101, 205 and 300.
\<close>

definition rev_shuffle :: "unit shuffler" where
  "rev_shuffle r xs = (rev xs, r)"

definition example_sols :: manifest where
  "example_sols =
     \<lparr>aerial = [],
      ground = [(''pano/NLF_0101_a.png'', example_ground [] []),
                (''pano/NLF_0101_b.png'', example_ground [] []),
                (''pano/NLF_0205_a.png'', example_ground [] []),
                (''pano/NLF_0300_a.png'', example_ground [] [])]\<rparr>"

text \<open>
  A pixel map with two values, and a manifest with one ground image that is positive for
  one tile and semi-positive for four.
\<close>

definition example_px :: pixel_map where
  "example_px loc = (if loc = (''9.7'', ''50.2'') then (700, 300) else (640, 320))"

definition example_records :: manifest where
  "example_records =
     \<lparr>aerial = [(''t1.png'', example_tile [''pano/g_0001_.png''] []),
                (''t2.png'', example_tile [] [''pano/g_0001_.png'']),
                (''t3.png'', example_tile [] [''pano/g_0001_.png'']),
                (''t4.png'', example_tile [] [''pano/g_0001_.png'']),
                (''t5.png'', example_tile [] [''pano/g_0001_.png''])],
      ground = [(''pano/g_0001_.png'',
                 \<lparr>g_size = (4096, 1024), g_location = (''9.7'', ''50.2''),
                  g_positive = [''t1.png''],
                  g_semi_positive = [''t2.png'', ''t3.png'', ''t4.png'', ''t5.png'']\<rparr>)]\<rparr>"

text \<open>
  Image files as the builder meets them: a labelled tile, a labelled ground image inside
  the positive boundary of the tile, a ground image without a label; and the items the
  builder makes of the first two.
\<close>

definition example_tile_file :: image_file where
  "example_tile_file = (''7_9.5_50.5_9.0_51.0_10.0_50.0_8.0_52.0_11.0_49.0.png'', (640, 640))"

definition example_ground_file :: image_file where
  "example_ground_file = (''rover/4096x1024/LAT_50.5LONG_9.5_pano.png'', (4096, 1024))"


definition example_built_tile :: aerial_item where
  "example_built_tile =
     \<lparr>a_id = ''7'', a_size = (640, 640), a_center = (''9.5'', ''50.5''),
      a_positive_boundary = ((''9.0'', ''51.0''), (''10.0'', ''50.0'')),
      a_semi_positive_boundary = ((''8.0'', ''52.0''), (''11.0'', ''49.0'')),
      a_positive = [], a_semi_positive = []\<rparr>"

definition example_built_ground :: ground_item where
  "example_built_ground =
     \<lparr>g_size = (4096, 1024), g_location = (''9.5'', ''50.5''),
      g_positive = [], g_semi_positive = []\<rparr>"

text \<open>
  A tile whose positive boundary holds the sample ground image also when the
  coordinates are compared as text, and the manifest the builder makes of the two.
\<close>

definition example_near_tile_file :: image_file where
  "example_near_tile_file = (''8_9.5_50.5_9.0_51.0_9.9_50.0_8.0_52.0_9.99_49.0.png'', (640, 640))"

definition example_linked :: manifest where
  "example_linked =
     \<lparr>aerial = [(fst example_near_tile_file,
          \<lparr>a_id = ''8'', a_size = (640, 640), a_center = (''9.5'', ''50.5''),
           a_positive_boundary = ((''9.0'', ''51.0''), (''9.9'', ''50.0'')),
           a_semi_positive_boundary = ((''8.0'', ''52.0''), (''9.99'', ''49.0'')),
           a_positive = [fst example_ground_file], a_semi_positive = []\<rparr>)],
      ground = [(fst example_ground_file,
          \<lparr>g_size = (4096, 1024), g_location = (''9.5'', ''50.5''),
           g_positive = [fst example_near_tile_file], g_semi_positive = []\<rparr>)]\<rparr>"
section \<open>Properties of node removal and of the curation passes\<close>

lemma map_of_dict_del: "map_of (dict_del g d) k = (if k = g then None else map_of d k)"
  by (induction d) (auto simp: dict_del_def)

lemma map_of_map_values:
  "map_of (map (\<lambda>(k, v). (k, f v)) d) k = map_option f (map_of d k)"
  by (induction d) auto

lemma dict_keys_map_values [simp]: "dict_keys (map (\<lambda>(k, v). (k, f v)) d) = dict_keys d"
  by (induction d) (auto simp: dict_keys_def)

lemma dict_keys_dict_del: "dict_keys (dict_del g d) = removeAll g (dict_keys d)"
  by (induction d) (auto simp: dict_keys_def dict_del_def)

lemma dict_has_map_of: "dict_has k d \<longleftrightarrow> map_of d k \<noteq> None"
  by (simp add: dict_has_def dict_keys_def map_of_eq_None_iff)

lemma remove1_absent: "x \<notin> set xs \<Longrightarrow> remove1 x xs = xs"
  by (simp add: remove1_idem)

lemma scrub_ground_positive [simp]: "a_positive (scrub_ground g ai) = remove1 g (a_positive ai)"
  by (simp add: scrub_ground_def Let_def remove1_idem)

lemma scrub_ground_semi [simp]:
  "a_semi_positive (scrub_ground g ai) = remove1 g (a_semi_positive ai)"
  by (simp add: scrub_ground_def Let_def remove1_idem)

lemma scrub_aerial_positive [simp]: "g_positive (scrub_aerial a gi) = remove1 a (g_positive gi)"
  by (simp add: scrub_aerial_def Let_def remove1_idem)

lemma scrub_aerial_semi [simp]:
  "g_semi_positive (scrub_aerial a gi) = remove1 a (g_semi_positive gi)"
  by (simp add: scrub_aerial_def Let_def remove1_idem)

lemma remove_ground_image_Inr:
  assumes "remove_ground_image g m = Inr m'"
  shows "dict_has g (ground m)"
    and "ground m' = dict_del g (ground m)"
    and "aerial m' = map (\<lambda>(k, ai). (k, scrub_ground g ai)) (aerial m)"
  using assms by (auto simp: remove_ground_image_def split: if_splits)

lemma remove_aerial_image_Inr:
  assumes "remove_aerial_image a m = Inr m'"
  shows "dict_has a (aerial m)"
    and "aerial m' = dict_del a (aerial m)"
    and "ground m' = map (\<lambda>(k, gi). (k, scrub_aerial a gi)) (ground m)"
  using assms by (auto simp: remove_aerial_image_def split: if_splits)

lemma in_remove1_other: "x \<noteq> g \<Longrightarrow> x \<in> set (remove1 g xs) \<longleftrightarrow> x \<in> set xs"
  by simp

lemma remove_ground_image_consistent:
  assumes c: "consistent m" and r: "remove_ground_image g m = Inr m'"
  shows "consistent m'"
proof -
  note gr = remove_ground_image_Inr(2)[OF r] and ae = remove_ground_image_Inr(3)[OF r]
  have A: "\<And>a ai'. map_of (aerial m') a = Some ai' \<Longrightarrow>
             \<exists>ai. map_of (aerial m) a = Some ai \<and> ai' = scrub_ground g ai"
    by (auto simp: ae map_of_map_values)
  have G: "\<And>k gi. map_of (ground m') k = Some gi \<Longrightarrow> k \<noteq> g \<and> map_of (ground m) k = Some gi"
    by (auto simp: gr map_of_dict_del split: if_splits)
  show ?thesis
    unfolding consistent_def
  proof (intro conjI allI impI)
    fix a ai' k gi
    assume h: "map_of (aerial m') a = Some ai' \<and> map_of (ground m') k = Some gi"
    then obtain ai where ai: "map_of (aerial m) a = Some ai" "ai' = scrub_ground g ai"
      using A by blast
    from h G have k: "k \<noteq> g" "map_of (ground m) k = Some gi" by auto
    from c ai(1) k(2) have
      "(k \<in> set (a_positive ai) \<longleftrightarrow> a \<in> set (g_positive gi))"
      "(k \<in> set (a_semi_positive ai) \<longleftrightarrow> a \<in> set (g_semi_positive gi))"
      unfolding consistent_def by blast+
    then show "(k \<in> set (a_positive ai') \<longleftrightarrow> a \<in> set (g_positive gi))"
      "(k \<in> set (a_semi_positive ai') \<longleftrightarrow> a \<in> set (g_semi_positive gi))"
      using k(1) ai(2) by simp_all
  next
    fix a ai'
    assume "map_of (aerial m') a = Some ai'"
    then obtain ai where ai: "map_of (aerial m) a = Some ai" "ai' = scrub_ground g ai"
      using A by blast
    from c ai(1) have "set (a_positive ai) \<inter> set (a_semi_positive ai) = {}"
      unfolding consistent_def by blast
    moreover have "set (a_positive ai') \<subseteq> set (a_positive ai)"
      "set (a_semi_positive ai') \<subseteq> set (a_semi_positive ai)"
      using ai(2) set_remove1_subset[of g "a_positive ai"]
        set_remove1_subset[of g "a_semi_positive ai"] by auto
    ultimately show "set (a_positive ai') \<inter> set (a_semi_positive ai') = {}" by blast
  next
    fix k gi
    assume "map_of (ground m') k = Some gi"
    with G have "map_of (ground m) k = Some gi" by blast
    with c show "set (g_positive gi) \<inter> set (g_semi_positive gi) = {}"
      unfolding consistent_def by blast
  qed
qed


lemma remove_aerial_image_consistent:
  assumes c: "consistent m" and r: "remove_aerial_image a m = Inr m'"
  shows "consistent m'"
proof -
  note ae = remove_aerial_image_Inr(2)[OF r] and gr = remove_aerial_image_Inr(3)[OF r]
  have G: "\<And>k gi'. map_of (ground m') k = Some gi' \<Longrightarrow>
             \<exists>gi. map_of (ground m) k = Some gi \<and> gi' = scrub_aerial a gi"
    by (auto simp: gr map_of_map_values)
  have A: "\<And>k ai. map_of (aerial m') k = Some ai \<Longrightarrow> k \<noteq> a \<and> map_of (aerial m) k = Some ai"
    by (auto simp: ae map_of_dict_del split: if_splits)
  show ?thesis
    unfolding consistent_def
  proof (intro conjI allI impI)
    fix k ai g gi'
    assume h: "map_of (aerial m') k = Some ai \<and> map_of (ground m') g = Some gi'"
    then obtain gi where gi: "map_of (ground m) g = Some gi" "gi' = scrub_aerial a gi"
      using G by blast
    from h A have k: "k \<noteq> a" "map_of (aerial m) k = Some ai" by auto
    from c gi(1) k(2) have
      "(g \<in> set (a_positive ai) \<longleftrightarrow> k \<in> set (g_positive gi))"
      "(g \<in> set (a_semi_positive ai) \<longleftrightarrow> k \<in> set (g_semi_positive gi))"
      unfolding consistent_def by blast+
    then show "(g \<in> set (a_positive ai) \<longleftrightarrow> k \<in> set (g_positive gi'))"
      "(g \<in> set (a_semi_positive ai) \<longleftrightarrow> k \<in> set (g_semi_positive gi'))"
      using k(1) gi(2) by simp_all
  next
    fix g gi'
    assume "map_of (ground m') g = Some gi'"
    then obtain gi where gi: "map_of (ground m) g = Some gi" "gi' = scrub_aerial a gi"
      using G by blast
    from c gi(1) have "set (g_positive gi) \<inter> set (g_semi_positive gi) = {}"
      unfolding consistent_def by blast
    moreover have "set (g_positive gi') \<subseteq> set (g_positive gi)"
      "set (g_semi_positive gi') \<subseteq> set (g_semi_positive gi)"
      using gi(2) set_remove1_subset[of a "g_positive gi"]
        set_remove1_subset[of a "g_semi_positive gi"] by auto
    ultimately show "set (g_positive gi') \<inter> set (g_semi_positive gi') = {}" by blast
  next
    fix k ai
    assume "map_of (aerial m') k = Some ai"
    with A have "map_of (aerial m) k = Some ai" by blast
    with c show "set (a_positive ai) \<inter> set (a_semi_positive ai) = {}"
      unfolding consistent_def by blast
  qed
qed

lemma distinct_dict_del: "distinct (dict_keys d) \<Longrightarrow> distinct (dict_keys (dict_del k d))"
  by (simp add: dict_keys_dict_del distinct_removeAll)

lemma in_dict_del: "kv \<in> set (dict_del k d) \<Longrightarrow> kv \<in> set d"
  by (simp add: dict_del_def)

lemma remove_ground_image_well_formed:
  assumes w: "well_formed m" and r: "remove_ground_image g m = Inr m'"
  shows "well_formed m'"
proof -
  note gr = remove_ground_image_Inr(2)[OF r] and ae = remove_ground_image_Inr(3)[OF r]
  have 1: "distinct (dict_keys (aerial m'))" using w by (simp add: ae well_formed_def)
  have 2: "distinct (dict_keys (ground m'))"
    using w by (simp add: gr well_formed_def distinct_dict_del)
  have 3: "distinct (a_positive ai') \<and> distinct (a_semi_positive ai')"
    if "(a, ai') \<in> set (aerial m')" for a ai'
  proof -
    from that obtain ai where "(a, ai) \<in> set (aerial m)" "ai' = scrub_ground g ai"
      by (auto simp: ae)
    with w show ?thesis by (auto simp: well_formed_def)
  qed
  have 4: "distinct (g_positive gi) \<and> distinct (g_semi_positive gi)"
    if "(k, gi) \<in> set (ground m')" for k gi
  proof -
    from that have "(k, gi) \<in> set (ground m)" by (simp add: gr in_dict_del)
    with w show ?thesis by (auto simp: well_formed_def)
  qed
  show ?thesis unfolding well_formed_def using 1 2 3 4 by blast
qed

lemma remove_aerial_image_well_formed:
  assumes w: "well_formed m" and r: "remove_aerial_image a m = Inr m'"
  shows "well_formed m'"
proof -
  note ae = remove_aerial_image_Inr(2)[OF r] and gr = remove_aerial_image_Inr(3)[OF r]
  have 1: "distinct (dict_keys (ground m'))" using w by (simp add: gr well_formed_def)
  have 2: "distinct (dict_keys (aerial m'))"
    using w by (simp add: ae well_formed_def distinct_dict_del)
  have 3: "distinct (g_positive gi') \<and> distinct (g_semi_positive gi')"
    if "(k, gi') \<in> set (ground m')" for k gi'
  proof -
    from that obtain gi where "(k, gi) \<in> set (ground m)" "gi' = scrub_aerial a gi"
      by (auto simp: gr)
    with w show ?thesis by (auto simp: well_formed_def)
  qed
  have 4: "distinct (a_positive ai) \<and> distinct (a_semi_positive ai)"
    if "(k, ai) \<in> set (aerial m')" for k ai
  proof -
    from that have "(k, ai) \<in> set (aerial m)" by (simp add: ae in_dict_del)
    with w show ?thesis by (auto simp: well_formed_def)
  qed
  show ?thesis unfolding well_formed_def using 1 2 3 4 by blast
qed

lemma remove_image_cases:
  assumes "remove_image k m = Inr m'"
  shows "remove_aerial_image k m = Inr m' \<or> remove_ground_image k m = Inr m' \<or> m' = m"
  using assms by (simp add: remove_image_def split: if_splits)

lemma remove_image_consistent:
  "consistent m \<Longrightarrow> remove_image k m = Inr m' \<Longrightarrow> consistent m'"
  using remove_image_cases remove_ground_image_consistent remove_aerial_image_consistent
  by blast

lemma remove_image_well_formed:
  "well_formed m \<Longrightarrow> remove_image k m = Inr m' \<Longrightarrow> well_formed m'"
  using remove_image_cases remove_ground_image_well_formed remove_aerial_image_well_formed
  by blast

lemma for_each_preserves:
  assumes "P s" and "for_each f xs s = Inr s'"
    and step: "\<And>x s s'. P s \<Longrightarrow> f x s = Inr s' \<Longrightarrow> P s'"
  shows "P s'"
  using assms(1,2)
proof (induction xs arbitrary: s)
  case Nil
  then show ?case by simp
next
  case (Cons x xs)
  from Cons.prems(2) obtain s1 where s1: "f x s = Inr s1" "for_each f xs s1 = Inr s'"
    by (cases "f x s") auto
  from step[OF Cons.prems(1) s1(1)] have "P s1" .
  from Cons.IH[OF this s1(2)] show ?case .
qed

lemma remove_ground_image_ok:
  "manifest_ok m \<Longrightarrow> remove_ground_image g m = Inr m' \<Longrightarrow> manifest_ok m'"
  unfolding manifest_ok_def
  using remove_ground_image_consistent remove_ground_image_well_formed by blast

lemma remove_aerial_image_ok:
  "manifest_ok m \<Longrightarrow> remove_aerial_image g m = Inr m' \<Longrightarrow> manifest_ok m'"
  unfolding manifest_ok_def
  using remove_aerial_image_consistent remove_aerial_image_well_formed by blast

lemma remove_image_ok: "manifest_ok m \<Longrightarrow> remove_image g m = Inr m' \<Longrightarrow> manifest_ok m'"
  unfolding manifest_ok_def
  using remove_image_consistent remove_image_well_formed by blast

lemma for_each_remove_ground_ok:
  "manifest_ok m \<Longrightarrow> for_each remove_ground_image ks m = Inr m' \<Longrightarrow> manifest_ok m'"
  by (erule (1) for_each_preserves) (erule (1) remove_ground_image_ok)

lemma for_each_remove_aerial_ok:
  "manifest_ok m \<Longrightarrow> for_each remove_aerial_image ks m = Inr m' \<Longrightarrow> manifest_ok m'"
  by (erule (1) for_each_preserves) (erule (1) remove_aerial_image_ok)

lemma remove_duplicates_ok: "manifest_ok m \<Longrightarrow> remove_duplicates m = Inr m' \<Longrightarrow> manifest_ok m'"
  unfolding remove_duplicates_def
  by (erule (1) for_each_preserves) (erule (1) remove_image_ok)

lemma remove_spaced_ok:
  assumes "manifest_ok m" and "remove_spaced m = Inr m'"
  shows "manifest_ok m'"
proof -
  let ?f = "\<lambda>key m'. if CHR '' '' \<in> set (path_name key) then remove_image key m' else Inr m'"
  have step: "manifest_ok s'" if "manifest_ok s" "?f x s = Inr s'" for x s s'
  proof (cases "CHR '' '' \<in> set (path_name x)")
    case True
    with that(2) have "remove_image x s = Inr s'" by simp
    with that(1) show ?thesis by (rule remove_image_ok)
  next
    case False
    with that show ?thesis by simp
  qed
  from assms(2) have "for_each ?f (dict_keys (aerial m) @ dict_keys (ground m)) m = Inr m'"
    by (simp add: remove_spaced_def)
  with assms(1) show ?thesis by (rule for_each_preserves) (rule step)
qed

lemma remove_non_panoramas_ok:
  assumes "manifest_ok m" and "remove_non_panoramas ratio m = Inr m'"
  shows "manifest_ok m'"
proof -
  from assms(2) obtain ks where "for_each remove_ground_image ks m = Inr m'"
    by (cases "non_panoramas ratio (ground m)") (simp_all add: remove_non_panoramas_def)
  with assms(1) show ?thesis by (rule for_each_remove_ground_ok)
qed

lemma remove_few_semi_positives_ok:
  "manifest_ok m \<Longrightarrow> remove_few_semi_positives m = Inr m' \<Longrightarrow> manifest_ok m'"
  unfolding remove_few_semi_positives_def by (rule for_each_remove_ground_ok)

lemma remove_distractions_ok:
  assumes "manifest_ok (fst st)" and "remove_distractions smp p st = Inr st'"
  shows "manifest_ok (fst st')"
proof -
  let ?ds = "distractions (fst st)"
  obtain xs r' where s: "py_sample smp (snd st) ?ds (remove_count p (length ?ds)) = Inr (xs, r')"
    using assms(2) unfolding remove_distractions_def Let_def
    by (cases "py_sample smp (snd st) ?ds (remove_count p (length ?ds))") auto
  with assms(2) have "for_each remove_aerial_image xs (fst st) = Inr (fst st')"
    unfolding remove_distractions_def Let_def
    by (cases "for_each remove_aerial_image xs (fst st)") auto
  with assms(1) show ?thesis by (rule for_each_remove_aerial_ok)
qed


subsection \<open>Removing several ground images\<close>

lemma fold_scrub_ground_positive:
  "a_positive (fold scrub_ground ks ai) = fold remove1 ks (a_positive ai)"
  by (induction ks arbitrary: ai) simp_all

lemma fold_scrub_ground_semi:
  "a_semi_positive (fold scrub_ground ks ai) = fold remove1 ks (a_semi_positive ai)"
  by (induction ks arbitrary: ai) simp_all

lemma set_fold_remove1_subset: "set (fold remove1 ks xs) \<subseteq> set xs"
proof (induction ks arbitrary: xs)
  case Nil
  then show ?case by simp
next
  case (Cons k ks)
  have "set (fold remove1 ks (remove1 k xs)) \<subseteq> set (remove1 k xs)" by (rule Cons.IH)
  also have "\<dots> \<subseteq> set xs" by (rule set_remove1_subset)
  finally show ?case by simp
qed

lemma in_fold_remove1_other:
  "x \<notin> set ks \<Longrightarrow> x \<in> set (fold remove1 ks xs) \<longleftrightarrow> x \<in> set xs"
  by (induction ks arbitrary: xs) simp_all

lemma distinct_fold_remove1: "distinct xs \<Longrightarrow> distinct (fold remove1 ks xs)"
  by (induction ks arbitrary: xs) simp_all

lemma set_fold_remove1_distinct:
  "distinct xs \<Longrightarrow> set (fold remove1 ks xs) = set xs - set ks"
  by (induction ks arbitrary: xs) (auto simp: distinct_fold_remove1)

lemma length_fold_remove1: "length (fold remove1 ks xs) \<le> length xs"
proof (induction ks arbitrary: xs)
  case Nil
  then show ?case by simp
next
  case (Cons k ks)
  have "length (fold remove1 ks (remove1 k xs)) \<le> length (remove1 k xs)" by (rule Cons.IH)
  also have "\<dots> \<le> length xs" by (simp add: length_remove1)
  finally show ?case by simp
qed

lemma for_each_remove_ground_Inr:
  assumes "for_each remove_ground_image ks m = Inr m'"
  shows "ground m' = filter (\<lambda>kv. fst kv \<notin> set ks) (ground m)"
    and "aerial m' = map (\<lambda>(k, ai). (k, fold scrub_ground ks ai)) (aerial m)"
  using assms
proof (induction ks arbitrary: m)
  case Nil
  { case 1 then show ?case by simp }
  { case 2 then show ?case by simp }
next
  case (Cons k ks)
  { case 1
    then obtain m1 where m1: "remove_ground_image k m = Inr m1"
      "for_each remove_ground_image ks m1 = Inr m'"
      by (cases "remove_ground_image k m") auto
    from Cons.IH(1)[OF m1(2)] remove_ground_image_Inr(2)[OF m1(1)]
    show ?case by (auto simp: dict_del_def intro: filter_cong) }
  { case 2
    then obtain m1 where m1: "remove_ground_image k m = Inr m1"
      "for_each remove_ground_image ks m1 = Inr m'"
      by (cases "remove_ground_image k m") auto
    from Cons.IH(2)[OF m1(2)] remove_ground_image_Inr(3)[OF m1(1)]
    show ?case by (auto simp: case_prod_unfold) }
qed

lemma map_of_filter_keys:
  "map_of (filter (\<lambda>kv. fst kv \<notin> K) d) k = (if k \<in> K then None else map_of d k)"
  by (induction d) auto


subsection \<open>The capping step\<close>

lemma py_sample_Inr:
  assumes "sample_contract smp" and "py_sample smp r xs k = Inr (ys, r')"
  shows "0 \<le> k" and "k \<le> int (length xs)" and "length ys = nat k"
    and "mset ys \<subseteq># mset xs"
proof -
  from assms(2) have k: "0 \<le> k" "k \<le> int (length xs)" and ys: "smp r xs (nat k) = (ys, r')"
    by (auto simp: py_sample_def split: if_splits)
  from k have "nat k \<le> length xs" by simp
  with assms(1) have "length (fst (smp r xs (nat k))) = nat k
      \<and> mset (fst (smp r xs (nat k))) \<subseteq># mset xs"
    unfolding sample_contract_def by blast
  with ys k show "0 \<le> k" "k \<le> int (length xs)" "length ys = nat k" "mset ys \<subseteq># mset xs"
    by simp_all
qed

lemma sample_set_subset: "mset ys \<subseteq># mset xs \<Longrightarrow> set ys \<subseteq> set xs"
  using set_mset_mono by fastforce

lemma sample_distinct:
  assumes "mset ys \<subseteq># mset xs" and "distinct xs"
  shows "distinct ys"
proof -
  have le: "count (mset ys) a \<le> count (mset xs) a" for a
    using assms(1) by (rule mset_subset_eq_count)
  have "count (mset xs) a \<le> 1" for a
    using assms(2) by (simp add: distinct_count_atmost_1)
  with le have "count (mset ys) a \<le> 1" for a
    using order_trans by blast
  moreover have "1 \<le> count (mset ys) a" if "a \<in> set ys" for a
    using that by (simp add: Suc_le_eq)
  moreover have "count (mset ys) a = 0" if "a \<notin> set ys" for a
    using that by (simp add: count_eq_zero_iff)
  ultimately show ?thesis
    unfolding distinct_count_atmost_1 by (metis le_antisym)
qed

lemma map_of_set_positive:
  "map_of (aerial (set_positive a s m)) k =
     (if k = a then map_option (\<lambda>ai. ai\<lparr>a_positive := s\<rparr>) (map_of (aerial m) a)
      else map_of (aerial m) k)"
proof -
  have "map_of (map (\<lambda>(k', ai). if k' = a then (k', ai\<lparr>a_positive := s\<rparr>) else (k', ai)) d) k =
     (if k = a then map_option (\<lambda>ai. ai\<lparr>a_positive := s\<rparr>) (map_of d a) else map_of d k)" for d
    by (induction d) auto
  from this[of "aerial m"] show ?thesis by (simp add: set_positive_def)
qed

lemma ground_set_positive [simp]: "ground (set_positive a s m) = ground m"
  by (simp add: set_positive_def)

lemma dict_keys_set_positive [simp]:
  "dict_keys (aerial (set_positive a s m)) = dict_keys (aerial m)"
  by (simp add: set_positive_def dict_keys_def case_prod_unfold comp_def)

lemma in_aerial_set_positive:
  assumes "(k, ai') \<in> set (aerial (set_positive a s m))"
  shows "\<exists>ai. (k, ai) \<in> set (aerial m) \<and> ai' = (if k = a then ai\<lparr>a_positive := s\<rparr> else ai)"
  using assms by (auto simp: set_positive_def split: if_splits)

lemma cap_tile_cases:
  assumes "cap_tile sc smp maxp a (m, r) = Inr (m', r')"
  obtains (skip) ai where "map_of (aerial m) a = Some ai"
      "\<not> cap_applies sc maxp (a_positive ai)" "m' = m" "r' = r"
  | (cap) ai s m1 where "map_of (aerial m) a = Some ai"
      "cap_applies sc maxp (a_positive ai)"
      "py_sample smp r (a_positive ai) maxp = Inr (s, r')"
      "for_each remove_ground_image (filter (\<lambda>x. x \<notin> set s) (a_positive ai)) m = Inr m1"
      "m' = set_positive a s m1"
proof -
  from assms obtain ai where ai: "map_of (aerial m) a = Some ai"
    by (cases "map_of (aerial m) a") (auto simp: cap_tile_def)
  show ?thesis
  proof (cases "cap_applies sc maxp (a_positive ai)")
    case False
    with assms ai have "m' = m" "r' = r" by (auto simp: cap_tile_def)
    with ai False show ?thesis by (rule skip)
  next
    case True
    with assms ai obtain s r1 where
      s: "py_sample smp r (a_positive ai) maxp = Inr (s, r1)"
      by (cases "py_sample smp r (a_positive ai) maxp") (auto simp: cap_tile_def)
    with assms ai True obtain m1 where
      m1: "for_each remove_ground_image (filter (\<lambda>x. x \<notin> set s) (a_positive ai)) m = Inr m1"
      by (cases "for_each remove_ground_image (filter (\<lambda>x. x \<notin> set s) (a_positive ai)) m")
         (auto simp: cap_tile_def)
    from assms ai True s m1 have "m' = set_positive a s m1" "r' = r1"
      by (auto simp: cap_tile_def)
    with ai True s m1 show ?thesis by (auto intro: cap)
  qed
qed


lemma map_of_aerial_after_removals:
  assumes "for_each remove_ground_image ks m = Inr m1"
  shows "map_of (aerial m1) a = map_option (fold scrub_ground ks) (map_of (aerial m) a)"
  by (simp add: for_each_remove_ground_Inr(2)[OF assms] map_of_map_values)

lemma map_of_ground_after_removals:
  assumes "for_each remove_ground_image ks m = Inr m1"
  shows "map_of (ground m1) g = (if g \<in> set ks then None else map_of (ground m) g)"
  by (simp add: for_each_remove_ground_Inr(1)[OF assms] map_of_filter_keys)

lemma well_formed_lookup:
  assumes "well_formed m" and "map_of (aerial m) a = Some ai"
  shows "distinct (a_positive ai)" and "distinct (a_semi_positive ai)"
proof -
  from assms(2) have "(a, ai) \<in> set (aerial m)" by (rule map_of_SomeD)
  with assms(1) show "distinct (a_positive ai)" "distinct (a_semi_positive ai)"
    by (auto simp: well_formed_def)
qed

lemma in_aerial_lookup:
  assumes "well_formed m" and "(a, ai) \<in> set (aerial m)"
  shows "map_of (aerial m) a = Some ai"
  using assms by (simp add: well_formed_def dict_keys_def)

lemma in_ground_lookup:
  assumes "well_formed m" and "(g, gi) \<in> set (ground m)"
  shows "map_of (ground m) g = Some gi"
  using assms by (simp add: well_formed_def dict_keys_def)

lemma cap_tile_ok:
  assumes ok: "manifest_ok m" and sc: "sample_contract smp"
    and step: "cap_tile sc smp maxp a (m, r) = Inr (m', r')"
  shows "manifest_ok m'"
  using step
proof (cases rule: cap_tile_cases)
  case (skip ai)
  with ok show ?thesis by simp
next
  case (cap ai s m1)
  let ?L = "filter (\<lambda>x. x \<notin> set s) (a_positive ai)"
  from ok have c: "consistent m" and w: "well_formed m" by (simp_all add: manifest_ok_def)
  from ok cap(4) have ok1: "manifest_ok m1" by (rule for_each_remove_ground_ok)
  then have c1: "consistent m1" and w1: "well_formed m1" by (simp_all add: manifest_ok_def)
  note smp = py_sample_Inr[OF sc cap(3)]
  have sub: "set s \<subseteq> set (a_positive ai)" using smp(4) by (rule sample_set_subset)
  have ds: "distinct s" using smp(4) well_formed_lookup(1)[OF w cap(1)] by (rule sample_distinct)
  have ai1: "map_of (aerial m1) a = Some (fold scrub_ground ?L ai)"
    by (simp add: map_of_aerial_after_removals[OF cap(4)] cap(1))
  let ?ai1 = "fold scrub_ground ?L ai"
  have semi_sub: "set (a_semi_positive ?ai1) \<subseteq> set (a_semi_positive ai)"
    by (simp add: fold_scrub_ground_semi set_fold_remove1_subset)
  have cons: "consistent m'"
    unfolding consistent_def
  proof (intro conjI allI impI)
    fix k ai' g gi
    assume h: "map_of (aerial m') k = Some ai' \<and> map_of (ground m') g = Some gi"
    then have g1: "map_of (ground m1) g = Some gi" by (simp add: cap(5))
    then have gL: "g \<notin> set ?L" and g0: "map_of (ground m) g = Some gi"
      by (auto simp: map_of_ground_after_removals[OF cap(4)] split: if_splits)
    show "(g \<in> set (a_positive ai') \<longleftrightarrow> k \<in> set (g_positive gi))"
    proof (cases "k = a")
      case True
      with h ai1 have "ai' = ?ai1\<lparr>a_positive := s\<rparr>" by (simp add: cap(5) map_of_set_positive)
      then have "g \<in> set (a_positive ai') \<longleftrightarrow> g \<in> set s" by simp
      also have "\<dots> \<longleftrightarrow> g \<in> set (a_positive ai)" using sub gL by auto
      also have "\<dots> \<longleftrightarrow> a \<in> set (g_positive gi)"
        using c cap(1) g0 unfolding consistent_def by blast
      finally show ?thesis using True by simp
    next
      case False
      with h have "map_of (aerial m1) k = Some ai'" by (simp add: cap(5) map_of_set_positive)
      with c1 g1 show ?thesis unfolding consistent_def by blast
    qed
    show "(g \<in> set (a_semi_positive ai') \<longleftrightarrow> k \<in> set (g_semi_positive gi))"
    proof (cases "k = a")
      case True
      with h ai1 have "ai' = ?ai1\<lparr>a_positive := s\<rparr>" by (simp add: cap(5) map_of_set_positive)
      then have "a_semi_positive ai' = a_semi_positive ?ai1" by simp
      moreover have "g \<in> set (a_semi_positive ?ai1) \<longleftrightarrow> a \<in> set (g_semi_positive gi)"
        using c1 ai1 g1 unfolding consistent_def by blast
      ultimately show ?thesis using True by simp
    next
      case False
      with h have "map_of (aerial m1) k = Some ai'" by (simp add: cap(5) map_of_set_positive)
      with c1 g1 show ?thesis unfolding consistent_def by blast
    qed
  next
    fix k ai'
    assume h: "map_of (aerial m') k = Some ai'"
    show "set (a_positive ai') \<inter> set (a_semi_positive ai') = {}"
    proof (cases "k = a")
      case True
      with h ai1 have "ai' = ?ai1\<lparr>a_positive := s\<rparr>" by (simp add: cap(5) map_of_set_positive)
      then have "set (a_positive ai') \<subseteq> set (a_positive ai)"
        "set (a_semi_positive ai') \<subseteq> set (a_semi_positive ai)"
        using sub semi_sub by simp_all
      moreover have "set (a_positive ai) \<inter> set (a_semi_positive ai) = {}"
        using c cap(1) unfolding consistent_def by blast
      ultimately show ?thesis by blast
    next
      case False
      with h have "map_of (aerial m1) k = Some ai'" by (simp add: cap(5) map_of_set_positive)
      with c1 show ?thesis unfolding consistent_def by blast
    qed
  next
    fix g gi
    assume "map_of (ground m') g = Some gi"
    then have "map_of (ground m1) g = Some gi" by (simp add: cap(5))
    with c1 show "set (g_positive gi) \<inter> set (g_semi_positive gi) = {}"
      unfolding consistent_def by blast
  qed
  have wf: "well_formed m'"
  proof -
    have 1: "distinct (dict_keys (aerial m'))" "distinct (dict_keys (ground m'))"
      using w1 by (simp_all add: cap(5) well_formed_def)
    have 2: "distinct (a_positive ai') \<and> distinct (a_semi_positive ai')"
      if "(k, ai') \<in> set (aerial m')" for k ai'
    proof -
      from that obtain v where v: "(k, v) \<in> set (aerial m1)"
        "ai' = (if k = a then v\<lparr>a_positive := s\<rparr> else v)"
        unfolding cap(5) using in_aerial_set_positive by blast
      from w1 v(1) have "distinct (a_positive v)" "distinct (a_semi_positive v)"
        by (auto simp: well_formed_def)
      with v(2) ds show ?thesis by simp
    qed
    have 3: "distinct (g_positive gi) \<and> distinct (g_semi_positive gi)"
      if "(g, gi) \<in> set (ground m')" for g gi
      using that w1 by (auto simp: cap(5) well_formed_def)
    show ?thesis unfolding well_formed_def using 1 2 3 by blast
  qed
  from cons wf show ?thesis by (simp add: manifest_ok_def)
qed

lemma cap_positives_ok:
  assumes ok: "manifest_ok (fst st)" and sc: "sample_contract smp"
    and run: "cap_positives sc smp maxp st = Inr st'"
  shows "manifest_ok (fst st')"
proof -
  have step: "manifest_ok (fst s')"
    if "manifest_ok (fst s)" "cap_tile sc smp maxp x s = Inr s'" for x s s'
  proof -
    from that(2) have "cap_tile sc smp maxp x (fst s, snd s) = Inr (fst s', snd s')" by simp
    from cap_tile_ok[OF that(1) sc this] show ?thesis .
  qed
  from run have "for_each (cap_tile sc smp maxp) (dict_keys (aerial (fst st))) st = Inr st'"
    by (simp add: cap_positives_def)
  from for_each_preserves[where P = "\<lambda>s. manifest_ok (fst s)", OF ok this step]
  show ?thesis .
qed

lemma lift_pass_Inr:
  assumes "lift_pass f st = Inr st'"
  shows "f (fst st) = Inr (fst st')"
  using assms by (cases "f (fst st)") (auto simp: lift_pass_def)

lemma run_pass_ok:
  assumes ok: "manifest_ok (fst st)" and sc: "sample_contract smp"
    and run: "run_pass scr smp a p st = Inr st'"
  shows "manifest_ok (fst st')"
proof (cases p)
  case Duplicates
  with run have "remove_duplicates (fst st) = Inr (fst st')" by (simp add: lift_pass_Inr)
  with ok show ?thesis by (rule remove_duplicates_ok)
next
  case Spaces
  with run have "remove_spaced (fst st) = Inr (fst st')" by (simp add: lift_pass_Inr)
  with ok show ?thesis by (rule remove_spaced_ok)
next
  case NonPanoramas
  with run have "remove_non_panoramas (panorama_aspect_ratio a) (fst st) = Inr (fst st')"
    by (simp add: lift_pass_Inr)
  with ok show ?thesis by (rule remove_non_panoramas_ok)
next
  case MaxPositives
  with run have "cap_positives scr smp (max_positive_panoramas a) st = Inr st'" by simp
  with ok sc show ?thesis by (rule cap_positives_ok)
next
  case Distractions
  with run have "remove_distractions smp (distraction_proportion a) st = Inr st'" by simp
  with ok show ?thesis by (rule remove_distractions_ok)
next
  case FewSemiPositives
  with run have "remove_few_semi_positives (fst st) = Inr (fst st')" by (simp add: lift_pass_Inr)
  with ok show ?thesis by (rule remove_few_semi_positives_ok)
qed

lemma remove_ground_image_absent:
  assumes w: "well_formed m" and r: "remove_ground_image g m = Inr m'"
  shows "ground_absent g m'"
proof -
  note gr = remove_ground_image_Inr(2)[OF r] and ae = remove_ground_image_Inr(3)[OF r]
  have 1: "\<not> dict_has g (ground m')"
    by (simp add: gr dict_has_def dict_keys_dict_del)
  have 2: "g \<notin> set (a_positive ai') \<and> g \<notin> set (a_semi_positive ai')"
    if "(a, ai') \<in> set (aerial m')" for a ai'
  proof -
    from that obtain ai where ai: "(a, ai) \<in> set (aerial m)" "ai' = scrub_ground g ai"
      by (auto simp: ae)
    with w have "distinct (a_positive ai)" "distinct (a_semi_positive ai)"
      by (auto simp: well_formed_def)
    with ai(2) show ?thesis by simp
  qed
  show ?thesis unfolding ground_absent_def using 1 2 by blast
qed

lemma remove_aerial_image_absent:
  assumes w: "well_formed m" and r: "remove_aerial_image a m = Inr m'"
  shows "aerial_absent a m'"
proof -
  note ae = remove_aerial_image_Inr(2)[OF r] and gr = remove_aerial_image_Inr(3)[OF r]
  have 1: "\<not> dict_has a (aerial m')"
    by (simp add: ae dict_has_def dict_keys_dict_del)
  have 2: "a \<notin> set (g_positive gi') \<and> a \<notin> set (g_semi_positive gi')"
    if "(g, gi') \<in> set (ground m')" for g gi'
  proof -
    from that obtain gi where gi: "(g, gi) \<in> set (ground m)" "gi' = scrub_aerial a gi"
      by (auto simp: gr)
    with w have "distinct (g_positive gi)" "distinct (g_semi_positive gi)"
      by (auto simp: well_formed_def)
    with gi(2) show ?thesis by simp
  qed
  show ?thesis unfolding aerial_absent_def using 1 2 by blast
qed

section \<open>Properties of the capping pass\<close>

lemma ground_pruned_refl: "ground_pruned m m"
  by (auto simp: ground_pruned_def)

lemma ground_pruned_trans:
  assumes "ground_pruned m m1" and "ground_pruned m1 m2"
  shows "ground_pruned m m2"
  unfolding ground_pruned_def
proof (intro conjI allI impI)
  show "dict_keys (aerial m2) = dict_keys (aerial m)"
    using assms by (simp add: ground_pruned_def)
next
  fix k ai2
  assume "map_of (aerial m2) k = Some ai2"
  with assms(2) obtain ai1 where ai1: "map_of (aerial m1) k = Some ai1"
    "set (a_positive ai2) \<subseteq> set (a_positive ai1)"
    "length (a_positive ai2) \<le> length (a_positive ai1)"
    "\<And>g. g \<in> set (a_positive ai1) \<Longrightarrow> g \<notin> set (a_positive ai2) \<Longrightarrow> ground_absent g m2"
    unfolding ground_pruned_def by blast
  from assms(1) ai1(1) obtain ai where ai: "map_of (aerial m) k = Some ai"
    "set (a_positive ai1) \<subseteq> set (a_positive ai)"
    "length (a_positive ai1) \<le> length (a_positive ai)"
    "\<And>g. g \<in> set (a_positive ai) \<Longrightarrow> g \<notin> set (a_positive ai1) \<Longrightarrow> ground_absent g m1"
    unfolding ground_pruned_def by blast
  have keep: "\<And>g. ground_absent g m1 \<Longrightarrow> ground_absent g m2"
    using assms(2) unfolding ground_pruned_def by blast
  have "ground_absent g m2" if "g \<in> set (a_positive ai)" "g \<notin> set (a_positive ai2)" for g
  proof (cases "g \<in> set (a_positive ai1)")
    case True
    from ai1(4)[OF True that(2)] show ?thesis .
  next
    case False
    from ai(4)[OF that(1) False] have "ground_absent g m1" .
    then show ?thesis by (rule keep)
  qed
  with ai(1) ai(2) ai(3) ai1(2) ai1(3)
  show "\<exists>ai. map_of (aerial m) k = Some ai
               \<and> set (a_positive ai2) \<subseteq> set (a_positive ai)
               \<and> length (a_positive ai2) \<le> length (a_positive ai)
               \<and> (\<forall>g. g \<in> set (a_positive ai) \<and> g \<notin> set (a_positive ai2) \<longrightarrow>
                      ground_absent g m2)"
    by (intro exI[of _ ai]) auto
next
  fix g
  assume "ground_absent g m"
  with assms show "ground_absent g m2" unfolding ground_pruned_def by blast
qed


lemma in_aerial_after_removals:
  assumes "for_each remove_ground_image ks m = Inr m1" and "(k, v1) \<in> set (aerial m1)"
  shows "\<exists>v. (k, v) \<in> set (aerial m) \<and> v1 = fold scrub_ground ks v"
  using assms(2) unfolding for_each_remove_ground_Inr(2)[OF assms(1)] by auto

lemma removed_ground_absent:
  assumes w: "well_formed m" and r: "for_each remove_ground_image ks m = Inr m1"
    and g: "g \<in> set ks"
  shows "ground_absent g m1"
proof -
  have 1: "\<not> dict_has g (ground m1)"
    using g by (simp add: dict_has_map_of map_of_ground_after_removals[OF r])
  have 2: "g \<notin> set (a_positive v1) \<and> g \<notin> set (a_semi_positive v1)"
    if "(k, v1) \<in> set (aerial m1)" for k v1
  proof -
    from in_aerial_after_removals[OF r that] obtain v where
      v: "(k, v) \<in> set (aerial m)" "v1 = fold scrub_ground ks v" by blast
    from w v(1) have "distinct (a_positive v)" "distinct (a_semi_positive v)"
      by (auto simp: well_formed_def)
    with v(2) g show ?thesis
      by (simp add: fold_scrub_ground_positive fold_scrub_ground_semi set_fold_remove1_distinct)
  qed
  show ?thesis unfolding ground_absent_def using 1 2 by blast
qed

lemma ground_absent_after_removals:
  assumes r: "for_each remove_ground_image ks m = Inr m1" and a: "ground_absent g m"
  shows "ground_absent g m1"
proof -
  from a have "map_of (ground m) g = None" by (simp add: ground_absent_def dict_has_map_of)
  then have 1: "\<not> dict_has g (ground m1)"
    by (simp add: dict_has_map_of map_of_ground_after_removals[OF r])
  have 2: "g \<notin> set (a_positive v1) \<and> g \<notin> set (a_semi_positive v1)"
    if "(k, v1) \<in> set (aerial m1)" for k v1
  proof -
    from in_aerial_after_removals[OF r that] obtain v where
      v: "(k, v) \<in> set (aerial m)" "v1 = fold scrub_ground ks v" by blast
    from a v(1) have "g \<notin> set (a_positive v)" "g \<notin> set (a_semi_positive v)"
      by (auto simp: ground_absent_def)
    with v(2) show ?thesis
      using set_fold_remove1_subset[of ks "a_positive v"]
        set_fold_remove1_subset[of ks "a_semi_positive v"]
      by (auto simp: fold_scrub_ground_positive fold_scrub_ground_semi)
  qed
  show ?thesis unfolding ground_absent_def using 1 2 by blast
qed

lemma ground_absent_set_positive:
  assumes "ground_absent g m" and "g \<notin> set s"
  shows "ground_absent g (set_positive a s m)"
proof -
  have "g \<notin> set (a_positive v') \<and> g \<notin> set (a_semi_positive v')"
    if "(k, v') \<in> set (aerial (set_positive a s m))" for k v'
  proof -
    from in_aerial_set_positive[OF that] obtain v where
      v: "(k, v) \<in> set (aerial m)" "v' = (if k = a then v\<lparr>a_positive := s\<rparr> else v)" by blast
    from assms(1) v(1) have "g \<notin> set (a_positive v)" "g \<notin> set (a_semi_positive v)"
      by (auto simp: ground_absent_def)
    with v(2) assms(2) show ?thesis by simp
  qed
  moreover from assms(1) have "\<not> dict_has g (ground (set_positive a s m))"
    by (simp add: ground_absent_def)
  ultimately show ?thesis unfolding ground_absent_def by blast
qed


lemma cap_tile_capped:
  assumes ok: "manifest_ok m" and sc: "sample_contract smp"
    and ai: "map_of (aerial m) a = Some ai"
    and ap: "cap_applies scr maxp (a_positive ai)"
    and step: "cap_tile scr smp maxp a (m, r) = Inr (m', r')"
  shows "\<exists>s m1. py_sample smp r (a_positive ai) maxp = Inr (s, r')
          \<and> for_each remove_ground_image (filter (\<lambda>x. x \<notin> set s) (a_positive ai)) m = Inr m1
          \<and> m' = set_positive a s m1
          \<and> map_of (aerial m') a
              = Some ((fold scrub_ground (filter (\<lambda>x. x \<notin> set s) (a_positive ai)) ai)
                        \<lparr>a_positive := s\<rparr>)
          \<and> int (length s) = maxp \<and> set s \<subseteq> set (a_positive ai) \<and> distinct s"
  using step
proof (cases rule: cap_tile_cases)
  case (skip ai0)
  with ai ap show ?thesis by simp
next
  case (cap ai0 s m1)
  with ai have [simp]: "ai0 = ai" by simp
  from ok have w: "well_formed m" by (simp add: manifest_ok_def)
  note smp = py_sample_Inr[OF sc cap(3)[simplified]]
  have "map_of (aerial m') a
      = Some ((fold scrub_ground (filter (\<lambda>x. x \<notin> set s) (a_positive ai)) ai)\<lparr>a_positive := s\<rparr>)"
    using cap(4) ai by (simp add: cap(5) map_of_set_positive map_of_aerial_after_removals)
  moreover have "int (length s) = maxp" using smp(1,3) by simp
  moreover have "set s \<subseteq> set (a_positive ai)" using smp(4) by (rule sample_set_subset)
  moreover have "distinct s"
    using smp(4) well_formed_lookup(1)[OF w ai] by (rule sample_distinct)
  ultimately show ?thesis using cap(3,4,5) by simp
qed

lemma cap_tile_pruned:
  assumes ok: "manifest_ok m" and sc: "sample_contract smp"
    and step: "cap_tile scr smp maxp a (m, r) = Inr (m', r')"
  shows "ground_pruned m m'"
  using step
proof (cases rule: cap_tile_cases)
  case (skip ai)
  then show ?thesis by (simp add: ground_pruned_refl)
next
  case (cap ai s m1)
  let ?L = "filter (\<lambda>x. x \<notin> set s) (a_positive ai)"
  from ok have w: "well_formed m" by (simp add: manifest_ok_def)
  note smp = py_sample_Inr[OF sc cap(3)]
  have sub: "set s \<subseteq> set (a_positive ai)" using smp(4) by (rule sample_set_subset)
  have len: "length s \<le> length (a_positive ai)" using smp(2,3) by simp
  have absent: "ground_absent g m'" if "g \<in> set ?L" for g
  proof -
    from w cap(4) that have "ground_absent g m1" by (rule removed_ground_absent)
    moreover from that have "g \<notin> set s" by simp
    ultimately show ?thesis unfolding cap(5) by (rule ground_absent_set_positive)
  qed
  show ?thesis
    unfolding ground_pruned_def
  proof (intro conjI allI impI)
    show "dict_keys (aerial m') = dict_keys (aerial m)"
      by (simp add: cap(5) for_each_remove_ground_Inr(2)[OF cap(4)])
  next
    fix k ai'
    assume h: "map_of (aerial m') k = Some ai'"
    show "\<exists>v. map_of (aerial m) k = Some v
               \<and> set (a_positive ai') \<subseteq> set (a_positive v)
               \<and> length (a_positive ai') \<le> length (a_positive v)
               \<and> (\<forall>g. g \<in> set (a_positive v) \<and> g \<notin> set (a_positive ai') \<longrightarrow>
                      ground_absent g m')"
    proof (cases "k = a")
      case True
      with h cap(1) have ai': "ai' = (fold scrub_ground ?L ai)\<lparr>a_positive := s\<rparr>"
        by (simp add: cap(5) map_of_set_positive map_of_aerial_after_removals[OF cap(4)])
      have "ground_absent g m'" if "g \<in> set (a_positive ai)" "g \<notin> set (a_positive ai')" for g
        using that ai' absent by simp
      with True cap(1) ai' sub len show ?thesis by (intro exI[of _ ai]) auto
    next
      case False
      with h obtain v where v: "map_of (aerial m) k = Some v" "ai' = fold scrub_ground ?L v"
        by (auto simp: cap(5) map_of_set_positive map_of_aerial_after_removals[OF cap(4)])
      have p: "a_positive ai' = fold remove1 ?L (a_positive v)"
        by (simp add: v(2) fold_scrub_ground_positive)
      have "ground_absent g m'" if "g \<in> set (a_positive v)" "g \<notin> set (a_positive ai')" for g
      proof -
        from that have "g \<in> set ?L" unfolding p using in_fold_remove1_other by metis
        then show ?thesis by (rule absent)
      qed
      with v(1) p show ?thesis
        using set_fold_remove1_subset[of ?L "a_positive v"]
          length_fold_remove1[of ?L "a_positive v"]
        by (intro exI[of _ v]) auto
    qed
  next
    fix g
    assume a: "ground_absent g m"
    with cap(4) have a1: "ground_absent g m1" by (rule ground_absent_after_removals)
    have "g \<notin> set s"
    proof
      assume "g \<in> set s"
      with sub have "g \<in> set (a_positive ai)" by blast
      moreover from cap(1) have "(a, ai) \<in> set (aerial m)" by (rule map_of_SomeD)
      ultimately show False using a by (auto simp: ground_absent_def)
    qed
    with a1 show "ground_absent g m'" unfolding cap(5) by (rule ground_absent_set_positive)
  qed
qed

lemma cap_tile_bound:
  assumes sc: "sample_contract smp"
    and step: "cap_tile scr smp maxp a (m, r) = Inr (m', r')"
    and guard: "scr = MK \<longrightarrow> maxp \<noteq> 0"
    and ai': "map_of (aerial m') a = Some ai'"
  shows "int (length (a_positive ai')) \<le> maxp"
  using step
proof (cases rule: cap_tile_cases)
  case (skip ai)
  with ai' have "ai' = ai" by simp
  with skip(2) guard show ?thesis by (cases scr) (auto simp: cap_applies_def)
next
  case (cap ai s m1)
  note smp = py_sample_Inr[OF sc cap(3)]
  from ai' cap(1) have "a_positive ai' = s"
    by (auto simp: cap(5) map_of_set_positive map_of_aerial_after_removals[OF cap(4)])
  with smp(1,3) show ?thesis by simp
qed

lemma for_each_cap_tile:
  assumes sc: "sample_contract smp" and guard: "scr = MK \<longrightarrow> maxp \<noteq> 0"
  shows "manifest_ok (fst st) \<Longrightarrow> for_each (cap_tile scr smp maxp) ks st = Inr st' \<Longrightarrow>
         ground_pruned (fst st) (fst st')
         \<and> (\<forall>k ai'. k \<in> set ks \<and> map_of (aerial (fst st')) k = Some ai' \<longrightarrow>
                int (length (a_positive ai')) \<le> maxp)"
proof (induction ks arbitrary: st)
  case Nil
  then show ?case by (simp add: ground_pruned_refl)
next
  case (Cons k ks)
  from Cons.prems(2) obtain s1 where s1: "cap_tile scr smp maxp k st = Inr s1"
    "for_each (cap_tile scr smp maxp) ks s1 = Inr st'"
    by (cases "cap_tile scr smp maxp k st") auto
  from s1(1) have step: "cap_tile scr smp maxp k (fst st, snd st) = Inr (fst s1, snd s1)" by simp
  from cap_tile_ok[OF Cons.prems(1) sc step] have ok1: "manifest_ok (fst s1)" .
  from cap_tile_pruned[OF Cons.prems(1) sc step] have p1: "ground_pruned (fst st) (fst s1)" .
  from Cons.IH[OF ok1 s1(2)] have p2: "ground_pruned (fst s1) (fst st')"
    and b2: "\<And>k' ai'. k' \<in> set ks \<Longrightarrow> map_of (aerial (fst st')) k' = Some ai' \<Longrightarrow>
                int (length (a_positive ai')) \<le> maxp" by blast+
  have "int (length (a_positive ai')) \<le> maxp"
    if "map_of (aerial (fst st')) k = Some ai'" for ai'
  proof -
    from p2 that obtain ai1 where ai1: "map_of (aerial (fst s1)) k = Some ai1"
      "length (a_positive ai') \<le> length (a_positive ai1)"
      unfolding ground_pruned_def by blast
    from cap_tile_bound[OF sc step guard ai1(1)] ai1(2) show ?thesis by simp
  qed
  with b2 p1 p2 show ?case by (auto intro: ground_pruned_trans)
qed

section \<open>Runs in which nothing has to be sampled\<close>









lemma remove_count_keep_all [simp]: "remove_count 1 n = 0"
  by (simp add: remove_count_def py_int_def)





section \<open>Properties of the split generator\<close>

lemma sol_at_Some:
  assumes "sol_at s = Some ds"
  shows "\<exists>post. s = ''_'' @ ds @ ''_'' @ post \<and> length ds = 4 \<and> (\<forall>d \<in> set ds. is_digit d)"
  using assms by (cases s rule: sol_at.cases) (auto split: if_splits)

lemma sol_at_match:
  assumes "length ds = 4" and "\<forall>d \<in> set ds. is_digit d"
  shows "sol_at (''_'' @ ds @ ''_'' @ post) = Some ds"
proof -
  from assms(1) obtain d1 d2 d3 d4 where "ds = [d1, d2, d3, d4]"
    by (auto simp: length_Suc_conv numeral_eq_Suc)
  with assms(2) show ?thesis by simp
qed

lemma find_sol_Some:
  "find_sol s = Some ds \<Longrightarrow>
   \<exists>pre post. s = pre @ ''_'' @ ds @ ''_'' @ post \<and> length ds = 4 \<and> (\<forall>d \<in> set ds. is_digit d)"
proof (induction s)
  case Nil
  then show ?case by simp
next
  case (Cons c cs)
  show ?case
  proof (cases "sol_at (c # cs)")
    case None
    with Cons.prems have "find_sol cs = Some ds" by simp
    from Cons.IH[OF this] obtain pre post where
      "cs = pre @ ''_'' @ ds @ ''_'' @ post" "length ds = 4" "\<forall>d \<in> set ds. is_digit d" by blast
    then have "c # cs = (c # pre) @ ''_'' @ ds @ ''_'' @ post \<and> length ds = 4
        \<and> (\<forall>d \<in> set ds. is_digit d)" by simp
    then show ?thesis by blast
  next
    case (Some ds')
    with Cons.prems have "ds' = ds" by simp
    with Some sol_at_Some[of "c # cs" ds] obtain post where
      "c # cs = [] @ ''_'' @ ds @ ''_'' @ post \<and> length ds = 4 \<and> (\<forall>d \<in> set ds. is_digit d)"
      by auto
    then show ?thesis by blast
  qed
qed

lemma find_sol_match:
  assumes "length ds = 4" and "\<forall>d \<in> set ds. is_digit d"
  shows "find_sol (pre @ ''_'' @ ds @ ''_'' @ post) \<noteq> None"
proof (induction pre)
  case Nil
  from sol_at_match[OF assms, of post] show ?case by simp
next
  case (Cons c pre)
  then show ?case by (cases "sol_at (c # pre @ ''_'' @ ds @ ''_'' @ post)") simp_all
qed

lemma find_sol_None_iff: "find_sol key = None \<longleftrightarrow> \<not> has_sol_segment key"
proof
  assume n: "find_sol key = None"
  show "\<not> has_sol_segment key"
  proof
    assume "has_sol_segment key"
    then obtain pre ds post where "key = pre @ ''_'' @ ds @ ''_'' @ post" "length ds = 4"
      "\<forall>d \<in> set ds. is_digit d" unfolding has_sol_segment_def by blast
    with find_sol_match[of ds pre post] n show False by simp
  qed
next
  assume h: "\<not> has_sol_segment key"
  show "find_sol key = None"
  proof (cases "find_sol key")
    case None
    then show ?thesis .
  next
    case (Some ds)
    from find_sol_Some[OF this] have "has_sol_segment key"
      unfolding has_sol_segment_def by blast
    with h show ?thesis by simp
  qed
qed

lemma sol_num_Inl_iff: "sol_num key = Inl e \<longleftrightarrow> e = IndexError \<and> \<not> has_sol_segment key"
  using find_sol_None_iff[of key] by (cases "find_sol key") (auto simp: sol_num_def)

lemma sol_num_total: "has_sol_segment key \<Longrightarrow> \<exists>n. sol_num key = Inr n"
  using sol_num_Inl_iff[of key] by (cases "sol_num key") auto

lemma collect_sols_Inl_iff:
  "collect_sols ks = Inl e \<longleftrightarrow> e = IndexError \<and> (\<exists>k \<in> set ks. \<not> has_sol_segment k)"
proof (induction ks)
  case Nil
  then show ?case by simp
next
  case (Cons k ks)
  show ?case
  proof (cases "sol_num k")
    case (Inl e')
    then show ?thesis using sol_num_Inl_iff[of k e'] by auto
  next
    case (Inr n)
    then have "has_sol_segment k" using sol_num_Inl_iff[of k IndexError] by auto
    with Inr Cons.IH show ?thesis by (cases "collect_sols ks") auto
  qed
qed

lemma assign_sols_Inl_iff:
  "assign_sols sols ks = Inl e \<longleftrightarrow> e = IndexError \<and> (\<exists>k \<in> set ks. \<not> has_sol_segment k)"
proof (induction ks)
  case Nil
  then show ?case by simp
next
  case (Cons k ks)
  show ?case
  proof (cases "sol_num k")
    case (Inl e')
    then show ?thesis using sol_num_Inl_iff[of k e'] by auto
  next
    case (Inr n)
    then have "has_sol_segment k" using sol_num_Inl_iff[of k IndexError] by auto
    with Inr Cons.IH show ?thesis by (cases "assign_sols sols ks") (auto split: prod.splits)
  qed
qed

lemma assign_sols_Inr:
  "assign_sols sols ks = Inr (tr, te) \<Longrightarrow>
     tr = filter (\<lambda>k. \<exists>n. sol_num k = Inr n \<and> n \<in> set sols) ks
   \<and> te = filter (\<lambda>k. \<exists>n. sol_num k = Inr n \<and> n \<notin> set sols) ks
   \<and> (\<forall>k \<in> set ks. \<exists>n. sol_num k = Inr n)"
proof (induction ks arbitrary: tr te)
  case Nil
  then show ?case by simp
next
  case (Cons k ks)
  from Cons.prems obtain n where n: "sol_num k = Inr n" by (cases "sol_num k") auto
  with Cons.prems obtain tr' te' where r: "assign_sols sols ks = Inr (tr', te')"
    by (cases "assign_sols sols ks") auto
  note ih = Cons.IH[OF r]
  show ?case
  proof (cases "n \<in> set sols")
    case True
    with Cons.prems n r have "tr = k # tr'" "te = te'" by auto
    with ih n True show ?thesis by auto
  next
    case False
    with Cons.prems n r have "tr = tr'" "te = k # te'" by auto
    with ih n False show ?thesis by auto
  qed
qed

lemma episode_split_Inl_iff:
  "episode_split shuffle p r m = Inl e \<longleftrightarrow>
     e = IndexError \<and> (\<exists>k \<in> set (dict_keys (ground m)). \<not> has_sol_segment k)"
proof (cases "collect_sols (dict_keys (ground m))")
  case (Inl e')
  then show ?thesis
    using collect_sols_Inl_iff[of "dict_keys (ground m)" e'] by (auto simp: episode_split_def)
next
  case (Inr sols)
  then have all: "\<not> (\<exists>k \<in> set (dict_keys (ground m)). \<not> has_sol_segment k)"
    using collect_sols_Inl_iff[of "dict_keys (ground m)" IndexError] by auto
  then have "assign_sols s (dict_keys (ground m)) \<noteq> Inl e" for s
    using assign_sols_Inl_iff[of s "dict_keys (ground m)" e] by blast
  then have "episode_split shuffle p r m \<noteq> Inl e"
    using Inr by (auto simp: episode_split_def Let_def split: prod.splits sum.splits)
  with all show ?thesis by blast
qed

lemma episode_split_Inr:
  assumes "episode_split shuffle p r m = Inr ((tr, te), r')"
  shows "\<exists>sols. tr = filter (\<lambda>k. \<exists>n. sol_num k = Inr n \<and> n \<in> set sols) (dict_keys (ground m))
     \<and> te = filter (\<lambda>k. \<exists>n. sol_num k = Inr n \<and> n \<notin> set sols) (dict_keys (ground m))
     \<and> (\<forall>k \<in> set (dict_keys (ground m)). \<exists>n. sol_num k = Inr n)"
proof -
  from assms obtain sols where "assign_sols sols (dict_keys (ground m)) = Inr (tr, te)"
    by (auto simp: episode_split_def Let_def split: prod.splits sum.splits)
  from assign_sols_Inr[OF this] show ?thesis by blast
qed

lemma random_split_Inr:
  assumes sc: "sample_contract smp"
    and run: "random_split smp file_exists p r m = Inr ((train_set, test_set), r')"
  shows "train_set \<subseteq> set (ground_images file_exists m)"
    and "test_set = set (ground_images file_exists m) - train_set"
proof -
  let ?gs = "ground_images file_exists m"
  let ?k = "py_int (of_int (int (length ?gs)) * p)"
  from run obtain s where s: "py_sample smp r ?gs ?k = Inr (s, r')"
    and tr: "train_set = set s" and te: "test_set = set ?gs - set s"
    unfolding random_split_def Let_def
    by (cases "py_sample smp r ?gs ?k") auto
  from py_sample_Inr(4)[OF sc s] have "set s \<subseteq> set ?gs" by (rule sample_set_subset)
  with tr te show "train_set \<subseteq> set ?gs" "test_set = set ?gs - train_set" by simp_all
qed

lemma set_ground_images:
  "set (ground_images file_exists m) = {k \<in> set (dict_keys (ground m)). file_exists k}"
  by (simp add: ground_images_def)

lemma episode_split_partition:
  assumes run: "episode_split shuffle p r m = Inr ((train_set, test_set), r')"
  shows "set train_set \<inter> set test_set = {}"
    and "set train_set \<union> set test_set = set (dict_keys (ground m))"
proof -
  from episode_split_Inr[OF run] obtain sols where
    tr: "train_set = filter (\<lambda>k. \<exists>n. sol_num k = Inr n \<and> n \<in> set sols) (dict_keys (ground m))"
    and te: "test_set = filter (\<lambda>k. \<exists>n. sol_num k = Inr n \<and> n \<notin> set sols) (dict_keys (ground m))"
    and all: "\<forall>k \<in> set (dict_keys (ground m)). \<exists>n. sol_num k = Inr n"
    by blast
  have "k \<notin> set test_set" if "k \<in> set train_set" for k
    using that unfolding tr te by auto
  then show "set train_set \<inter> set test_set = {}" by blast
  have "k \<in> set train_set \<or> k \<in> set test_set" if "k \<in> set (dict_keys (ground m))" for k
    using that all unfolding tr te by auto
  moreover have "set train_set \<subseteq> set (dict_keys (ground m))"
    "set test_set \<subseteq> set (dict_keys (ground m))"
    unfolding tr te by auto
  ultimately show "set train_set \<union> set test_set = set (dict_keys (ground m))" by blast
qed

section \<open>Properties of the label parser and of the builder\<close>








lemma map_of_dict_set: "map_of (dict_set k v d) k' = (if k' = k then Some v else map_of d k')"
proof (cases "dict_has k d")
  case True
  have "map_of (map (\<lambda>(k', v'). if k' = k then (k', v) else (k', v')) d) k'
      = (if k' = k then map_option (\<lambda>_. v) (map_of d k) else map_of d k')"
    by (induction d) auto
  moreover from True obtain v0 where "map_of d k = Some v0" by (auto simp: dict_has_map_of)
  ultimately show ?thesis using True by (simp add: dict_set_def)
next
  case False
  then have "map_of d k = None" by (simp add: dict_has_map_of)
  with False show ?thesis by (auto simp: dict_set_def map_add_def split: option.splits)
qed



section \<open>Properties of the split files\<close>

lemma tile_of_resolved:
  assumes "dict_has k (aerial m)"
  shows "\<exists>ai. map_of (aerial m) k = Some ai \<and> the (tile_of m k) = (path_name k, a_center ai)"
proof -
  from assms obtain ai where "map_of (aerial m) k = Some ai"
    by (auto simp: dict_has_map_of)
  then show ?thesis by (simp add: tile_of_def)
qed

lemma write_semi_positives:
  assumes "\<forall>sa \<in> set sas. dict_has sa (aerial m)"
  shows "for_each (write_semi_positive t_px m gi) sas buf
         = Inr (buf @ concat (map (\<lambda>sa. semi_text t_px (g_location gi) (the (tile_of m sa))) sas))"
  using assms
proof (induction sas arbitrary: buf)
  case Nil
  then show ?case by simp
next
  case (Cons sa sas)
  from Cons.prems have "dict_has sa (aerial m)" by simp
  from tile_of_resolved[OF this] obtain ai where
    ai: "map_of (aerial m) sa = Some ai" "the (tile_of m sa) = (path_name sa, a_center ai)"
    by blast
  have step: "write_semi_positive t_px m gi sa buf
      = Inr (buf @ semi_text t_px (g_location gi) (the (tile_of m sa)))"
    by (simp add: write_semi_positive_def ai semi_text_def)
  from Cons.prems have "\<forall>sa \<in> set sas. dict_has sa (aerial m)" by simp
  from Cons.IH[OF this] step show ?case by simp
qed

lemma write_positive_line:
  assumes pa: "dict_has pa (aerial m)"
    and sas: "\<forall>sa \<in> set (take 3 (g_semi_positive gi)). dict_has sa (aerial m)"
    and strict: "strict \<longrightarrow> 3 \<le> length (g_semi_positive gi)"
  shows "write_positive strict t_px m gname gi pa buf
         = Inr (buf @ record_line t_px gname (g_location gi) (the (tile_of m pa))
                        (map (\<lambda>sa. the (tile_of m sa)) (take 3 (g_semi_positive gi))))"
proof -
  from tile_of_resolved[OF pa] obtain ai where
    ai: "map_of (aerial m) pa = Some ai" "the (tile_of m pa) = (path_name pa, a_center ai)"
    by blast
  let ?buf1 = "buf @ gname @ '' '' @ path_name pa @ '' ''
                 @ offset_text t_px (g_location gi) (a_center ai)"
  have semis: "for_each (write_semi_positive t_px m gi) (take 3 (g_semi_positive gi)) ?buf1
     = Inr (?buf1 @ concat (map (\<lambda>sa. semi_text t_px (g_location gi) (the (tile_of m sa)))
                              (take 3 (g_semi_positive gi))))"
    using sas by (rule write_semi_positives)
  have not_short: "\<not> (strict \<and> length (g_semi_positive gi) < 3)" using strict by auto
  have "write_positive strict t_px m gname gi pa buf
      = Inr (?buf1 @ concat (map (\<lambda>sa. semi_text t_px (g_location gi) (the (tile_of m sa)))
                              (take 3 (g_semi_positive gi))) @ [CHR 0x0A])"
    unfolding write_positive_def Let_def using ai(1) not_short semis by simp
  also have "?buf1 @ concat (map (\<lambda>sa. semi_text t_px (g_location gi) (the (tile_of m sa)))
                              (take 3 (g_semi_positive gi))) @ [CHR 0x0A]
      = buf @ record_line t_px gname (g_location gi) (the (tile_of m pa))
                        (map (\<lambda>sa. the (tile_of m sa)) (take 3 (g_semi_positive gi)))"
    by (simp add: record_line_def ai(2) take_map comp_def)
  finally show ?thesis .
qed

lemma write_positives_lines:
  assumes "\<forall>pa \<in> set pas. dict_has pa (aerial m)"
    and "pas \<noteq> [] \<longrightarrow> (\<forall>sa \<in> set (take 3 (g_semi_positive gi)). dict_has sa (aerial m))"
    and "pas \<noteq> [] \<longrightarrow> strict \<longrightarrow> 3 \<le> length (g_semi_positive gi)"
  shows "for_each (write_positive strict t_px m gname gi) pas buf
         = Inr (buf @ concat (map (\<lambda>pa. record_line t_px gname (g_location gi) (the (tile_of m pa))
                        (map (\<lambda>sa. the (tile_of m sa)) (take 3 (g_semi_positive gi)))) pas))"
  using assms
proof (induction pas arbitrary: buf)
  case Nil
  then show ?case by simp
next
  case (Cons pa pas)
  from Cons.prems have pa: "dict_has pa (aerial m)"
    and sas: "\<forall>sa \<in> set (take 3 (g_semi_positive gi)). dict_has sa (aerial m)"
    and strict: "strict \<longrightarrow> 3 \<le> length (g_semi_positive gi)" by simp_all
  note step = write_positive_line[OF pa sas strict, of t_px gname buf]
  from Cons.prems(1) have 1: "\<forall>pa \<in> set pas. dict_has pa (aerial m)" by simp
  from sas have 2: "pas \<noteq> [] \<longrightarrow> (\<forall>sa \<in> set (take 3 (g_semi_positive gi)). dict_has sa (aerial m))"
    by simp
  from strict have 3: "pas \<noteq> [] \<longrightarrow> strict \<longrightarrow> 3 \<le> length (g_semi_positive gi)" by simp
  from Cons.IH[OF 1 2 3] step show ?case by simp
qed


lemma write_ground_lines:
  assumes gi: "map_of (ground m) k = Some gi"
    and pas: "\<forall>pa \<in> set (g_positive gi). dict_has pa (aerial m)"
    and sas: "g_positive gi \<noteq> [] \<longrightarrow>
                (\<forall>sa \<in> set (take 3 (g_semi_positive gi)). dict_has sa (aerial m))"
    and strict: "g_positive gi \<noteq> [] \<longrightarrow> strict \<longrightarrow> 3 \<le> length (g_semi_positive gi)"
  shows "write_ground strict t_px m k buf = Inr (buf @ concat (record_lines t_px m k))"
  using write_positives_lines[OF pas sas strict, of t_px "path_name k" buf] gi
  by (simp add: write_ground_def record_lines_def)

lemma split_file_lines_from:
  assumes "edges_resolve m keys" and "strict \<longrightarrow> enough_semi_positives m keys"
  shows "for_each (write_ground strict t_px m) keys buf
         = Inr (buf @ concat (map (\<lambda>k. concat (record_lines t_px m k)) keys))"
  using assms
proof (induction keys arbitrary: buf)
  case Nil
  then show ?case by simp
next
  case (Cons k keys)
  from Cons.prems(1) obtain gi where gi: "map_of (ground m) k = Some gi"
    and pas: "\<forall>pa \<in> set (g_positive gi). dict_has pa (aerial m)"
    and sas: "g_positive gi \<noteq> [] \<longrightarrow>
                (\<forall>sa \<in> set (take 3 (g_semi_positive gi)). dict_has sa (aerial m))"
    unfolding edges_resolve_def by auto
  from Cons.prems(2) gi
  have strict: "g_positive gi \<noteq> [] \<longrightarrow> strict \<longrightarrow> 3 \<le> length (g_semi_positive gi)"
    unfolding enough_semi_positives_def by auto
  note step = write_ground_lines[OF gi pas sas strict, of t_px buf]
  from Cons.prems(1) have 1: "edges_resolve m keys" unfolding edges_resolve_def by simp
  from Cons.prems(2) have 2: "strict \<longrightarrow> enough_semi_positives m keys"
    unfolding enough_semi_positives_def by simp
  from Cons.IH[OF 1 2] step show ?case by simp
qed

lemma length_record_lines:
  "map_of (ground m) k = Some gi \<Longrightarrow> length (record_lines t_px m k) = length (g_positive gi)"
  by (simp add: record_lines_def)


section \<open>The builder establishes the invariant\<close>

lemma dict_keys_dict_set:
  "dict_keys (dict_set k v d) = (if dict_has k d then dict_keys d else dict_keys d @ [k])"
proof -
  have "map fst (map (\<lambda>(k', v'). if k' = k then (k', v) else (k', v')) d) = map fst d"
    by (induction d) auto
  then show ?thesis by (simp add: dict_set_def dict_keys_def)
qed

lemma dict_has_dict_set: "dict_has k' (dict_set k v d) \<longleftrightarrow> k' = k \<or> dict_has k' d"
  by (auto simp: dict_has_def dict_keys_dict_set)

lemma distinct_dict_set: "distinct (dict_keys d) \<Longrightarrow> distinct (dict_keys (dict_set k v d))"
  by (auto simp: dict_keys_dict_set dict_has_def)

lemma well_formed_map_of:
  "well_formed m \<longleftrightarrow>
     distinct (dict_keys (aerial m)) \<and> distinct (dict_keys (ground m))
     \<and> (\<forall>a ai. map_of (aerial m) a = Some ai \<longrightarrow>
           distinct (a_positive ai) \<and> distinct (a_semi_positive ai))
     \<and> (\<forall>g gi. map_of (ground m) g = Some gi \<longrightarrow>
           distinct (g_positive gi) \<and> distinct (g_semi_positive gi))"
proof
  assume w: "well_formed m"
  then show "distinct (dict_keys (aerial m)) \<and> distinct (dict_keys (ground m))
     \<and> (\<forall>a ai. map_of (aerial m) a = Some ai \<longrightarrow>
           distinct (a_positive ai) \<and> distinct (a_semi_positive ai))
     \<and> (\<forall>g gi. map_of (ground m) g = Some gi \<longrightarrow>
           distinct (g_positive gi) \<and> distinct (g_semi_positive gi))"
    unfolding well_formed_def by (blast dest: map_of_SomeD)
next
  assume r: "distinct (dict_keys (aerial m)) \<and> distinct (dict_keys (ground m))
     \<and> (\<forall>a ai. map_of (aerial m) a = Some ai \<longrightarrow>
           distinct (a_positive ai) \<and> distinct (a_semi_positive ai))
     \<and> (\<forall>g gi. map_of (ground m) g = Some gi \<longrightarrow>
           distinct (g_positive gi) \<and> distinct (g_semi_positive gi))"
  then have da: "distinct (map fst (aerial m))" and dg: "distinct (map fst (ground m))"
    by (simp_all add: dict_keys_def)
  have "distinct (a_positive ai) \<and> distinct (a_semi_positive ai)"
    if "(a, ai) \<in> set (aerial m)" for a ai
  proof -
    from da that have "map_of (aerial m) a = Some ai" by (rule map_of_is_SomeI)
    with r show ?thesis by blast
  qed
  moreover have "distinct (g_positive gi) \<and> distinct (g_semi_positive gi)"
    if "(g, gi) \<in> set (ground m)" for g gi
  proof -
    from dg that have "map_of (ground m) g = Some gi" by (rule map_of_is_SomeI)
    with r show ?thesis by blast
  qed
  ultimately show "well_formed m" unfolding well_formed_def using r by blast
qed

lemma link_ready_tail: "link_ready g (k # ks) m \<Longrightarrow> link_ready g ks m"
  unfolding link_ready_def by auto

lemma edge_added:
  assumes ready: "link_ready g (k # ks) m" and dist: "k \<notin> set ks"
    and gi: "map_of (ground m) g = Some gi" and ai: "map_of (aerial m) k = Some ai"
    and gl: "\<And>g'. map_of (ground m') g' = (if g' = g then Some gi' else map_of (ground m) g')"
    and al: "\<And>a. map_of (aerial m') a = (if a = k then Some ai' else map_of (aerial m) a)"
    and keys: "dict_keys (aerial m') = dict_keys (aerial m)"
      "dict_keys (ground m') = dict_keys (ground m)"
    and gp: "set (g_positive gi') = set (g_positive gi) \<union> (if pos then {k} else {})"
    and gs: "set (g_semi_positive gi') = set (g_semi_positive gi) \<union> (if pos then {} else {k})"
    and ap: "set (a_positive ai') = set (a_positive ai) \<union> (if pos then {g} else {})"
    and as: "set (a_semi_positive ai') = set (a_semi_positive ai) \<union> (if pos then {} else {g})"
    and dl: "distinct (g_positive gi')" "distinct (g_semi_positive gi')"
      "distinct (a_positive ai')" "distinct (a_semi_positive ai')"
  shows "link_ready g ks m'"
proof -
  from ready have c: "consistent m" and w: "well_formed m" and cl: "edges_closed m"
    by (simp_all add: link_ready_def manifest_ok_def)
  from ready gi have kg: "k \<notin> set (g_positive gi)" "k \<notin> set (g_semi_positive gi)"
    and ksg: "\<And>k'. k' \<in> set ks \<Longrightarrow> k' \<notin> set (g_positive gi) \<and> k' \<notin> set (g_semi_positive gi)"
    by (auto simp: link_ready_def)
  from ready ai have ga: "g \<notin> set (a_positive ai)" "g \<notin> set (a_semi_positive ai)"
    by (auto simp: link_ready_def)
  from ready have ksa: "\<And>k'. k' \<in> set ks \<Longrightarrow> \<exists>ai. map_of (aerial m) k' = Some ai
            \<and> g \<notin> set (a_positive ai) \<and> g \<notin> set (a_semi_positive ai)"
    by (auto simp: link_ready_def)
  from c have cc: "\<And>a x g' y. map_of (aerial m) a = Some x \<Longrightarrow> map_of (ground m) g' = Some y \<Longrightarrow>
         (g' \<in> set (a_positive x) \<longleftrightarrow> a \<in> set (g_positive y)) \<and>
         (g' \<in> set (a_semi_positive x) \<longleftrightarrow> a \<in> set (g_semi_positive y))"
    and ca: "\<And>a x. map_of (aerial m) a = Some x \<Longrightarrow> set (a_positive x) \<inter> set (a_semi_positive x) = {}"
    and cg: "\<And>g' y. map_of (ground m) g' = Some y \<Longrightarrow> set (g_positive y) \<inter> set (g_semi_positive y) = {}"
    unfolding consistent_def by blast+
  have cons: "consistent m'"
    unfolding consistent_def
  proof (intro conjI allI impI)
    fix a x g' y
    assume h: "map_of (aerial m') a = Some x \<and> map_of (ground m') g' = Some y"
    show "g' \<in> set (a_positive x) \<longleftrightarrow> a \<in> set (g_positive y)"
    proof (cases "a = k")
      case ak: True
      with h al have x: "x = ai'" by simp
      show ?thesis
      proof (cases "g' = g")
        case True
        with h gl have "y = gi'" by simp
        with x ak True ap gp ga kg show ?thesis by auto
      next
        case False
        with h gl have y: "map_of (ground m) g' = Some y" by simp
        from cc[OF ai y] x ak False ap show ?thesis by auto
      qed
    next
      case ak: False
      with h al have x: "map_of (aerial m) a = Some x" by simp
      show ?thesis
      proof (cases "g' = g")
        case True
        with h gl have "y = gi'" by simp
        with cc[OF x gi] ak True gp show ?thesis by auto
      next
        case False
        with h gl have y: "map_of (ground m) g' = Some y" by simp
        from cc[OF x y] show ?thesis by simp
      qed
    qed
    show "g' \<in> set (a_semi_positive x) \<longleftrightarrow> a \<in> set (g_semi_positive y)"
    proof (cases "a = k")
      case ak: True
      with h al have x: "x = ai'" by simp
      show ?thesis
      proof (cases "g' = g")
        case True
        with h gl have "y = gi'" by simp
        with x ak True as gs ga kg show ?thesis by auto
      next
        case False
        with h gl have y: "map_of (ground m) g' = Some y" by simp
        from cc[OF ai y] x ak False as show ?thesis by auto
      qed
    next
      case ak: False
      with h al have x: "map_of (aerial m) a = Some x" by simp
      show ?thesis
      proof (cases "g' = g")
        case True
        with h gl have "y = gi'" by simp
        with cc[OF x gi] ak True gs show ?thesis by auto
      next
        case False
        with h gl have y: "map_of (ground m) g' = Some y" by simp
        from cc[OF x y] show ?thesis by simp
      qed
    qed
  next
    fix a x
    assume h: "map_of (aerial m') a = Some x"
    show "set (a_positive x) \<inter> set (a_semi_positive x) = {}"
    proof (cases "a = k")
      case True
      with h al have "x = ai'" by simp
      with ap as ga ca[OF ai] show ?thesis by auto
    next
      case False
      with h al have "map_of (aerial m) a = Some x" by simp
      then show ?thesis by (rule ca)
    qed
  next
    fix g' y
    assume h: "map_of (ground m') g' = Some y"
    show "set (g_positive y) \<inter> set (g_semi_positive y) = {}"
    proof (cases "g' = g")
      case True
      with h gl have "y = gi'" by simp
      with gp gs kg cg[OF gi] show ?thesis by auto
    next
      case False
      with h gl have "map_of (ground m) g' = Some y" by simp
      then show ?thesis by (rule cg)
    qed
  qed
  from w have wm: "distinct (dict_keys (aerial m))" "distinct (dict_keys (ground m))"
    "\<And>a x. map_of (aerial m) a = Some x \<Longrightarrow> distinct (a_positive x) \<and> distinct (a_semi_positive x)"
    "\<And>g' y. map_of (ground m) g' = Some y \<Longrightarrow> distinct (g_positive y) \<and> distinct (g_semi_positive y)"
    unfolding well_formed_map_of by blast+
  have wf: "well_formed m'"
    unfolding well_formed_map_of
  proof (intro conjI allI impI)
    show "distinct (dict_keys (aerial m'))" "distinct (dict_keys (ground m'))"
      using wm(1,2) keys by simp_all
  next
    fix a x
    assume h: "map_of (aerial m') a = Some x"
    show "distinct (a_positive x)" "distinct (a_semi_positive x)"
      using h al[of a] dl(3,4) wm(3)[of a x] by (auto split: if_splits)
  next
    fix g' y
    assume h: "map_of (ground m') g' = Some y"
    show "distinct (g_positive y)" "distinct (g_semi_positive y)"
      using h gl[of g'] dl(1,2) wm(4)[of g' y] by (auto split: if_splits)
  qed
  have hasg: "dict_has g (ground m')" using gi keys(2) by (auto simp: dict_has_def dict_has_map_of[unfolded dict_has_def])
  have closed: "edges_closed m'"
    unfolding edges_closed_def
  proof (intro allI impI ballI)
    fix a x g'
    assume h: "map_of (aerial m') a = Some x"
      and g': "g' \<in> set (a_positive x) \<union> set (a_semi_positive x)"
    show "dict_has g' (ground m')"
    proof (cases "a = k")
      case True
      with h al have "x = ai'" by simp
      with g' ap as have "g' = g \<or> g' \<in> set (a_positive ai) \<union> set (a_semi_positive ai)"
        by (auto split: if_splits)
      then show ?thesis
      proof
        assume "g' = g"
        with hasg show ?thesis by simp
      next
        assume "g' \<in> set (a_positive ai) \<union> set (a_semi_positive ai)"
        with cl ai have "dict_has g' (ground m)" unfolding edges_closed_def by blast
        then show ?thesis by (simp add: dict_has_def keys)
      qed
    next
      case False
      with h al have "map_of (aerial m) a = Some x" by simp
      with cl g' have "dict_has g' (ground m)" unfolding edges_closed_def by blast
      then show ?thesis by (simp add: dict_has_def keys)
    qed
  qed
  have r1: "\<exists>y. map_of (ground m') g = Some y
            \<and> (\<forall>k' \<in> set ks. k' \<notin> set (g_positive y) \<and> k' \<notin> set (g_semi_positive y))"
  proof (intro exI[of _ gi'] conjI ballI)
    show "map_of (ground m') g = Some gi'" by (simp add: gl)
  next
    fix k'
    assume "k' \<in> set ks"
    with dist ksg[of k'] have "k' \<noteq> k" "k' \<notin> set (g_positive gi)" "k' \<notin> set (g_semi_positive gi)"
      by auto
    with gp gs show "k' \<notin> set (g_positive gi')" "k' \<notin> set (g_semi_positive gi')"
      by (auto split: if_splits)
  qed
  have r2: "\<forall>k' \<in> set ks. \<exists>x. map_of (aerial m') k' = Some x
            \<and> g \<notin> set (a_positive x) \<and> g \<notin> set (a_semi_positive x)"
  proof
    fix k'
    assume k': "k' \<in> set ks"
    with dist have "k' \<noteq> k" by auto
    with ksa[OF k'] al[of k'] show "\<exists>x. map_of (aerial m') k' = Some x
            \<and> g \<notin> set (a_positive x) \<and> g \<notin> set (a_semi_positive x)" by simp
  qed
  from cons wf closed r1 r2 show ?thesis
    unfolding link_ready_def manifest_ok_def by blast
qed

lemma link_step:
  assumes ready: "link_ready g (k # ks) m" and dist: "k \<notin> set ks"
  shows "link_ready g ks (link g k m)"
proof -
  from ready obtain gi where gi: "map_of (ground m) g = Some gi"
    and kg: "k \<notin> set (g_positive gi)" "k \<notin> set (g_semi_positive gi)"
    by (auto simp: link_ready_def)
  from ready obtain ai where ai: "map_of (aerial m) k = Some ai"
    and ga: "g \<notin> set (a_positive ai)" "g \<notin> set (a_semi_positive ai)"
    by (auto simp: link_ready_def)
  from ready have w: "well_formed m" by (simp add: link_ready_def manifest_ok_def)
  from w gi ai have d: "distinct (g_positive gi)" "distinct (g_semi_positive gi)"
    "distinct (a_positive ai)" "distinct (a_semi_positive ai)"
    unfolding well_formed_map_of by blast+
  have hg: "dict_has g (ground m)" and hk: "dict_has k (aerial m)"
    using gi ai by (simp_all add: dict_has_map_of)
  show ?thesis
  proof (cases "is_positive gi ai")
    case True
    let ?gi' = "gi\<lparr>g_positive := g_positive gi @ [k]\<rparr>"
    let ?ai' = "ai\<lparr>a_positive := a_positive ai @ [g]\<rparr>"
    have m': "link g k m = m\<lparr>ground := dict_set g ?gi' (ground m),
                              aerial := dict_set k ?ai' (aerial m)\<rparr>"
      using gi ai True by (simp add: link_def)
    show ?thesis
    proof (rule edge_added[OF ready dist gi ai, where gi' = ?gi' and ai' = ?ai' and pos = True])
      show "\<And>g'. map_of (ground (link g k m)) g' = (if g' = g then Some ?gi' else map_of (ground m) g')"
        by (simp add: m' map_of_dict_set)
      show "\<And>a. map_of (aerial (link g k m)) a = (if a = k then Some ?ai' else map_of (aerial m) a)"
        by (simp add: m' map_of_dict_set)
      show "dict_keys (aerial (link g k m)) = dict_keys (aerial m)"
        "dict_keys (ground (link g k m)) = dict_keys (ground m)"
        using hg hk by (simp_all add: m' dict_keys_dict_set)
    qed (use d kg ga in simp_all)
  next
    case np: False
    show ?thesis
    proof (cases "is_semi_positive gi ai")
      case True
      let ?gi' = "gi\<lparr>g_semi_positive := g_semi_positive gi @ [k]\<rparr>"
      let ?ai' = "ai\<lparr>a_semi_positive := a_semi_positive ai @ [g]\<rparr>"
      have m': "link g k m = m\<lparr>ground := dict_set g ?gi' (ground m),
                                aerial := dict_set k ?ai' (aerial m)\<rparr>"
        using gi ai np True by (simp add: link_def)
      show ?thesis
      proof (rule edge_added[OF ready dist gi ai, where gi' = ?gi' and ai' = ?ai' and pos = False])
        show "\<And>g'. map_of (ground (link g k m)) g' = (if g' = g then Some ?gi' else map_of (ground m) g')"
          by (simp add: m' map_of_dict_set)
        show "\<And>a. map_of (aerial (link g k m)) a = (if a = k then Some ?ai' else map_of (aerial m) a)"
          by (simp add: m' map_of_dict_set)
        show "dict_keys (aerial (link g k m)) = dict_keys (aerial m)"
          "dict_keys (ground (link g k m)) = dict_keys (ground m)"
          using hg hk by (simp_all add: m' dict_keys_dict_set)
      qed (use d kg ga in simp_all)
    next
      case False
      with np gi ai have "link g k m = m" by (simp add: link_def)
      with ready show ?thesis by (simp add: link_ready_tail)
    qed
  qed
qed

lemma fold_link_ready:
  "distinct ks \<Longrightarrow> link_ready g ks m \<Longrightarrow> link_ready g [] (fold (link g) ks m)"
proof (induction ks arbitrary: m)
  case Nil
  then show ?case by simp
next
  case (Cons k ks)
  from Cons.prems have "k \<notin> set ks" "distinct ks" by simp_all
  from link_step[OF Cons.prems(2) this(1)] have "link_ready g ks (link g k m)" .
  from Cons.IH[OF \<open>distinct ks\<close> this] show ?case by simp
qed

lemma link_keys:
  "dict_keys (aerial (link g k m)) = dict_keys (aerial m)"
  "dict_keys (ground (link g k m)) = dict_keys (ground m)"
proof -
  have "dict_keys (aerial (link g k m)) = dict_keys (aerial m)
      \<and> dict_keys (ground (link g k m)) = dict_keys (ground m)"
  proof (cases "map_of (ground m) g")
    case None
    then show ?thesis by (simp add: link_def)
  next
    case (Some gi)
    note gi = this
    show ?thesis
    proof (cases "map_of (aerial m) k")
      case None
      with gi show ?thesis by (simp add: link_def)
    next
      case (Some ai)
      have "dict_has g (ground m)" "dict_has k (aerial m)"
        using gi Some by (simp_all add: dict_has_map_of)
      with gi Some show ?thesis by (simp add: link_def dict_keys_dict_set)
    qed
  qed
  then show "dict_keys (aerial (link g k m)) = dict_keys (aerial m)"
    "dict_keys (ground (link g k m)) = dict_keys (ground m)" by simp_all
qed

lemma fold_link_keys:
  "dict_keys (aerial (fold (link g) ks m)) = dict_keys (aerial m)"
  "dict_keys (ground (fold (link g) ks m)) = dict_keys (ground m)"
  by (induction ks arbitrary: m) (simp_all add: link_keys)

lemma add_ground_ok:
  assumes ok: "built_ok m" and new: "\<not> dict_has (fst f) (ground m)"
  shows "built_ok (add_ground f m)"
proof (cases "ground_label_match (path_name (fst f))")
  case None
  with ok show ?thesis by (simp add: add_ground_def)
next
  case (Some ll)
  obtain lat lon where ll: "ll = (lat, lon)" by (cases ll)
  let ?g = "fst f"
  let ?gi = "\<lparr>g_size = snd f, g_location = (lon, lat), g_positive = [], g_semi_positive = []\<rparr>"
  let ?m1 = "m\<lparr>ground := dict_set ?g ?gi (ground m)\<rparr>"
  from ok have c: "consistent m" and w: "well_formed m" and cl: "edges_closed m"
    by (simp_all add: built_ok_def manifest_ok_def)
  have ground1: "ground ?m1 = ground m @ [(?g, ?gi)]" using new by (simp add: dict_set_def)
  have gl: "map_of (ground ?m1) g' = (if g' = ?g then Some ?gi else map_of (ground m) g')" for g'
    by (simp add: map_of_dict_set)
  have absent: "?g \<notin> set (a_positive ai) \<and> ?g \<notin> set (a_semi_positive ai)"
    if "map_of (aerial m) a = Some ai" for a ai
    using cl that new unfolding edges_closed_def by blast
  have c1: "consistent ?m1"
    unfolding consistent_def
  proof (intro conjI allI impI)
    fix a ai g' y
    assume h: "map_of (aerial ?m1) a = Some ai \<and> map_of (ground ?m1) g' = Some y"
    then have a: "map_of (aerial m) a = Some ai" by simp
    show "g' \<in> set (a_positive ai) \<longleftrightarrow> a \<in> set (g_positive y)"
      "g' \<in> set (a_semi_positive ai) \<longleftrightarrow> a \<in> set (g_semi_positive y)"
    proof -
      show "g' \<in> set (a_positive ai) \<longleftrightarrow> a \<in> set (g_positive y)"
      proof (cases "g' = ?g")
        case True
        with h gl have "y = ?gi" by simp
        with True absent[OF a] show ?thesis by simp
      next
        case False
        with h gl have "map_of (ground m) g' = Some y" by simp
        with c a show ?thesis unfolding consistent_def by blast
      qed
      show "g' \<in> set (a_semi_positive ai) \<longleftrightarrow> a \<in> set (g_semi_positive y)"
      proof (cases "g' = ?g")
        case True
        with h gl have "y = ?gi" by simp
        with True absent[OF a] show ?thesis by simp
      next
        case False
        with h gl have "map_of (ground m) g' = Some y" by simp
        with c a show ?thesis unfolding consistent_def by blast
      qed
    qed
  next
    fix a ai
    assume "map_of (aerial ?m1) a = Some ai"
    then have "map_of (aerial m) a = Some ai" by simp
    with c show "set (a_positive ai) \<inter> set (a_semi_positive ai) = {}"
      unfolding consistent_def by blast
  next
    fix g' y
    assume h: "map_of (ground ?m1) g' = Some y"
    show "set (g_positive y) \<inter> set (g_semi_positive y) = {}"
    proof (cases "g' = ?g")
      case True
      with h gl have "y = ?gi" by simp
      then show ?thesis by simp
    next
      case False
      with h gl have "map_of (ground m) g' = Some y" by simp
      with c show ?thesis unfolding consistent_def by blast
    qed
  qed
  from w have wm: "distinct (dict_keys (aerial m))" "distinct (dict_keys (ground m))"
    "\<And>a x. map_of (aerial m) a = Some x \<Longrightarrow> distinct (a_positive x) \<and> distinct (a_semi_positive x)"
    "\<And>g' y. map_of (ground m) g' = Some y \<Longrightarrow> distinct (g_positive y) \<and> distinct (g_semi_positive y)"
    unfolding well_formed_map_of by blast+
  have w1: "well_formed ?m1"
    unfolding well_formed_map_of
  proof (intro conjI allI impI)
    show "distinct (dict_keys (aerial ?m1))" using wm(1) by simp
    show "distinct (dict_keys (ground ?m1))" using wm(2) by (simp add: distinct_dict_set)
  next
    fix a x
    assume "map_of (aerial ?m1) a = Some x"
    then have "map_of (aerial m) a = Some x" by simp
    then show "distinct (a_positive x)" "distinct (a_semi_positive x)" using wm(3) by blast+
  next
    fix g' y
    assume h: "map_of (ground ?m1) g' = Some y"
    show "distinct (g_positive y)" "distinct (g_semi_positive y)"
      using h gl[of g'] wm(4)[of g' y] by (auto split: if_splits)
  qed
  have cl1: "edges_closed ?m1"
    using cl unfolding edges_closed_def by (auto simp: dict_has_dict_set)
  have ready: "link_ready ?g (dict_keys (aerial ?m1)) ?m1"
    unfolding link_ready_def manifest_ok_def
  proof (intro conjI)
    show "consistent ?m1" by (rule c1)
    show "well_formed ?m1" by (rule w1)
    show "edges_closed ?m1" by (rule cl1)
    show "\<exists>gi. map_of (ground ?m1) ?g = Some gi \<and>
         (\<forall>k\<in>set (dict_keys (aerial ?m1)). k \<notin> set (g_positive gi) \<and> k \<notin> set (g_semi_positive gi))"
      by (intro exI[of _ ?gi]) (simp add: map_of_dict_set)
    show "\<forall>k\<in>set (dict_keys (aerial ?m1)). \<exists>ai. map_of (aerial ?m1) k = Some ai \<and>
         ?g \<notin> set (a_positive ai) \<and> ?g \<notin> set (a_semi_positive ai)"
    proof
      fix k
      assume "k \<in> set (dict_keys (aerial ?m1))"
      then have "dict_has k (aerial m)" by (simp add: dict_has_def)
      then obtain ai where ai: "map_of (aerial m) k = Some ai" by (auto simp: dict_has_map_of)
      with absent[OF ai] show "\<exists>ai. map_of (aerial ?m1) k = Some ai \<and>
         ?g \<notin> set (a_positive ai) \<and> ?g \<notin> set (a_semi_positive ai)" by simp
    qed
  qed
  have dk: "distinct (dict_keys (aerial ?m1))" using wm(1) by simp
  from fold_link_ready[OF dk ready]
  have "built_ok (fold (link ?g) (dict_keys (aerial ?m1)) ?m1)"
    by (simp add: link_ready_def built_ok_def)
  moreover have "add_ground f m = fold (link ?g) (dict_keys (aerial ?m1)) ?m1"
    using Some ll by (simp add: add_ground_def Let_def)
  ultimately show ?thesis by simp
qed

lemma add_aerial_unlinked: "tiles_unlinked m \<Longrightarrow> tiles_unlinked (add_aerial f m)"
  by (cases "aerial_label_match (path_name (fst f))")
     (auto simp: add_aerial_def tiles_unlinked_def map_of_dict_set distinct_dict_set
           split: if_splits)

lemma fold_add_aerial_unlinked:
  "tiles_unlinked m \<Longrightarrow> tiles_unlinked (fold add_aerial fs m)"
  by (induction fs arbitrary: m) (simp_all add: add_aerial_unlinked)

lemma unlinked_built_ok: "tiles_unlinked m \<Longrightarrow> built_ok m"
  unfolding built_ok_def manifest_ok_def consistent_def well_formed_map_of edges_closed_def
    tiles_unlinked_def
  by (simp add: dict_keys_def)

lemma add_ground_keys:
  "set (dict_keys (ground (add_ground f m))) \<subseteq> insert (fst f) (set (dict_keys (ground m)))"
  by (cases "ground_label_match (path_name (fst f))")
     (auto simp: add_ground_def Let_def fold_link_keys dict_keys_dict_set split: if_splits)

lemma fold_add_ground_ok:
  assumes "built_ok m" and "distinct (map fst fs)"
    and "\<forall>f \<in> set fs. \<not> dict_has (fst f) (ground m)"
  shows "built_ok (fold add_ground fs m)"
  using assms
proof (induction fs arbitrary: m)
  case Nil
  then show ?case by simp
next
  case (Cons f fs)
  from Cons.prems have new: "\<not> dict_has (fst f) (ground m)" by simp
  from Cons.prems(1) new have ok: "built_ok (add_ground f m)" by (rule add_ground_ok)
  have "\<forall>f' \<in> set fs. \<not> dict_has (fst f') (ground (add_ground f m))"
  proof
    fix f'
    assume f': "f' \<in> set fs"
    from Cons.prems(2) have "fst f \<notin> fst ` set fs" by simp
    moreover from f' have "fst f' \<in> fst ` set fs" by (rule imageI)
    ultimately have "fst f' \<noteq> fst f" by metis
    moreover from f' Cons.prems(3) have "fst f' \<notin> set (dict_keys (ground m))"
      by (simp add: dict_has_def)
    ultimately show "\<not> dict_has (fst f') (ground (add_ground f m))"
      using add_ground_keys[of f m] by (auto simp: dict_has_def)
  qed
  with Cons.IH[OF ok] Cons.prems(2) show ?case by simp
qed

lemma build_ok: "distinct (map fst ground_files) \<Longrightarrow> built_ok (build aerial_files ground_files)"
proof -
  assume d: "distinct (map fst ground_files)"
  let ?m0 = "\<lparr>aerial = [], ground = []\<rparr>"
  have "tiles_unlinked ?m0" by (simp add: tiles_unlinked_def dict_keys_def)
  then have u: "tiles_unlinked (fold add_aerial aerial_files ?m0)"
    by (rule fold_add_aerial_unlinked)
  then have ok: "built_ok (fold add_aerial aerial_files ?m0)" by (rule unlinked_built_ok)
  from u have "ground (fold add_aerial aerial_files ?m0) = []" by (simp add: tiles_unlinked_def)
  then have "\<forall>f \<in> set ground_files. \<not> dict_has (fst f) (ground (fold add_aerial aerial_files ?m0))"
    by (simp add: dict_has_def dict_keys_def)
  with ok d show ?thesis unfolding build_def by (rule fold_add_ground_ok)
qed
section \<open>The sample data, evaluated\<close>

lemma first_k_contract: "sample_contract first_k"
proof -
  have "mset (take k xs) \<subseteq># mset xs" for k and xs :: "string list"
  proof -
    have "mset xs = mset (take k xs) + mset (drop k xs)"
      by (metis append_take_drop_id mset_append)
    then show ?thesis by simp
  qed
  then show ?thesis by (simp add: sample_contract_def first_k_def)
qed


lemmas eval_defs = cap_positives_def cap_tile_def cap_applies_def py_sample_def
  remove_ground_image_def remove_aerial_image_def dict_has_def dict_keys_def dict_del_def
  set_positive_def scrub_ground_def scrub_aerial_def example_tile_def example_ground_def

lemma example_cap_first:
  "cap_positives MK first_k 2 (example_manifest, ()) = Inr (example_capped_first, ())"
  by (simp add: eval_defs first_k_def example_manifest_def example_capped_first_def)

lemma example_cap_last:
  "cap_positives MK last_k 2 (example_manifest, ()) = Inr (example_capped_last, ())"
  by (simp add: eval_defs last_k_def example_manifest_def example_capped_last_def)

lemma example_well_formed: "well_formed example_manifest"
  by (simp add: well_formed_def example_manifest_def dict_keys_def example_tile_def
      example_ground_def)

lemma example_consistent: "consistent example_manifest"
  unfolding consistent_def example_manifest_def example_tile_def example_ground_def
  by (auto split: if_splits)

lemma example_five_cap:
  "cap_positives MK first_k 2 (example_five, ()) = Inr (example_five_capped, ())"
  by (simp add: eval_defs first_k_def example_five_def example_five_capped_def)

lemma example_five_well_formed: "well_formed example_five"
  by (simp add: well_formed_def example_five_def dict_keys_def example_tile_def
      example_ground_def)

lemma example_five_consistent: "consistent example_five"
  unfolding consistent_def example_five_def example_tile_def example_ground_def
  by (auto split: if_splits)








lemma example_sol_nums:
  "sol_num ''pano/NLF_0101_a.png'' = Inr 101"
  "sol_num ''pano/NLF_0101_b.png'' = Inr 101"
  "sol_num ''pano/NLF_0205_a.png'' = Inr 205"
  "sol_num ''pano/NLF_0300_a.png'' = Inr 300"
  by (simp_all add: sol_num_def is_digit_def int_of_digits_def digit_value_def)

lemma floor_three_halves: "\<lfloor>3 / 2 :: rat\<rfloor> = 1"
  by (rule floor_unique) simp_all

lemma example_episode_split:
  "episode_split rev_shuffle (1/2) () example_sols
   = Inr (([''pano/NLF_0300_a.png''],
           [''pano/NLF_0101_a.png'', ''pano/NLF_0101_b.png'', ''pano/NLF_0205_a.png'']), ())"
  by (simp add: episode_split_def example_sols_def dict_keys_def example_sol_nums
      rev_shuffle_def py_int_def py_take_def Let_def floor_three_halves)

lemma example_no_sol: "find_sol ''g1'' = None"
  by (simp add: is_digit_def)

lemma example_ground_images_missing:
  "ground_images (\<lambda>k. k \<noteq> ''g5'') example_manifest = [''g1'', ''g2'', ''g3'', ''g4'']"
  by (simp add: ground_images_def dict_keys_def example_manifest_def)

lemma example_random_split_missing_file:
  "random_split first_k (\<lambda>k. k \<noteq> ''g5'') (1/2) () example_manifest
     = Inr (({''g1'', ''g2''}, {''g3'', ''g4''}), ())"
  by (simp add: random_split_def example_ground_images_missing
      py_sample_def py_int_def first_k_def)

lemma example_ground_images_all:
  "ground_images (\<lambda>k. True) example_sols
   = [''pano/NLF_0101_a.png'', ''pano/NLF_0101_b.png'', ''pano/NLF_0205_a.png'',
      ''pano/NLF_0300_a.png'']"
  by (simp add: ground_images_def dict_keys_def example_sols_def)

lemma example_random_split:
  "random_split first_k (\<lambda>k. True) (1/2) () example_sols
     = Inr (({''pano/NLF_0101_a.png'', ''pano/NLF_0101_b.png''},
             {''pano/NLF_0205_a.png'', ''pano/NLF_0300_a.png''}), ())"
  by (simp add: random_split_def example_ground_images_all py_sample_def py_int_def first_k_def)

lemmas write_defs = split_file_def write_ground_def write_positive_def write_semi_positive_def
  offset_text_def ground_aerial_offset_px_def str_int_def path_name_def digit_char_def

lemma example_two_lines:
  "split_file False (\<lambda>loc. (0, 0)) example_manifest [''g3'']
   = Inr (''g3 t1 0 0'' @ [CHR 0x0A] @ ''g3 t2 0 0'' @ [CHR 0x0A])"
  by (simp add: write_defs example_manifest_def example_tile_def example_ground_def)

lemma example_record_text:
  "split_file False example_px example_records [''pano/g_0001_.png'']
   = Inr (''g_0001_.png t1.png -20 60 t2.png -20 60 t3.png -20 60 t4.png -20 60'' @ [CHR 0x0A])"
  by (simp add: write_defs example_records_def example_tile_def example_px_def)

lemma example_records_resolve: "edges_resolve example_records [''pano/g_0001_.png'']"
  by (simp add: edges_resolve_def example_records_def dict_has_def dict_keys_def)

lemmas parse_defs = aerial_label_match_def ground_label_match_def match_digits_def
  match_decimal_def starts_with_def is_digit_def path_name_def

lemma example_tile_groups:
  "aerial_label_match ''7_9.5_50.5_9.0_51.0_10.0_50.0_8.0_52.0_11.0_49.0.png''
   = Some [''7'', ''9.5'', ''50.5'', ''9.0'', ''51.0'', ''10.0'', ''50.0'', ''8.0'', ''52.0'',
           ''11.0'', ''49.0'']"
  by (simp add: parse_defs numeral_eq_Suc)


lemma example_ground_groups:
  "ground_label_match ''LAT_50.5LONG_9.5_pano.png'' = Some (''50.5'', ''9.5'')"
  by (simp add: parse_defs)


lemma decimal_values:
  "decimal_value ''9.0'' = 9" "decimal_value ''9.5'' = 19/2" "decimal_value ''10.0'' = 10"
  "decimal_value ''50.0'' = 50" "decimal_value ''50.5'' = 101/2" "decimal_value ''51.0'' = 51"
  "decimal_value ''9.50'' = 19/2"
  by (simp_all add: decimal_value_def is_digit_def int_of_digits_def digit_value_def)

lemma example_build:
  "build [example_tile_file] [example_ground_file]
   = \<lparr>aerial = [(fst example_tile_file, example_built_tile)],
      ground = [(fst example_ground_file, example_built_ground)]\<rparr>"
  by (simp add: build_def add_aerial_def add_ground_def example_tile_file_def
      example_ground_file_def path_name_def example_tile_groups example_ground_groups
      dict_set_def dict_has_def dict_keys_def link_def is_positive_def is_semi_positive_def
      inside_def example_built_tile_def example_built_ground_def)

lemma example_near_tile_groups:
  "aerial_label_match ''8_9.5_50.5_9.0_51.0_9.9_50.0_8.0_52.0_9.99_49.0.png''
   = Some [''8'', ''9.5'', ''50.5'', ''9.0'', ''51.0'', ''9.9'', ''50.0'', ''8.0'', ''52.0'',
           ''9.99'', ''49.0'']"
  by (simp add: parse_defs numeral_eq_Suc)

lemma example_build_linked:
  "build [example_near_tile_file] [example_ground_file] = example_linked"
  by (simp add: build_def add_aerial_def add_ground_def example_near_tile_file_def
      example_ground_file_def path_name_def example_near_tile_groups example_ground_groups
      dict_set_def dict_has_def dict_keys_def link_def is_positive_def is_semi_positive_def
      inside_def example_linked_def)
section \<open>Bidirectional consistency under curation\<close>

text \<open>
  C1. Let the manifest be well formed and bidirectionally consistent, and let the
  sampler keep to the contract of \<^verbatim>\<open>random.sample\<close>. Then every curation pass that
  runs to its end (duplicates, names with spaces, non-panoramas, maximum positives,
  distractions, fewer than three semi-positives; in either variant of the script)
  returns a manifest that is again well formed and consistent: for an aerial key and a
  ground key that are both present the positive edge is on both sides or on neither,
  likewise the semi-positive edge, and no pair is positive and semi-positive at once.
  The same holds after the whole pipeline. Removing a ground image deletes its entry and
  leaves its key in no positive and no semi-positive list of any tile; removing an
  aerial tile does the same on the ground images. The manifest the builder writes is
  well formed and consistent to begin with: its edge insertion loop appends a pair on
  both sides or on neither, as positive or as semi-positive but not as both. This needs
  that no ground path is listed twice, which holds of a directory listing.
\<close>

theorem curation_keeps_consistency:
  assumes "sample_contract smp" and "well_formed m" and "consistent m"
  shows "(\<forall>p r m' r'. run_pass scr smp a p (m, r) = Inr (m', r') \<longrightarrow>
            consistent m' \<and> well_formed m')
       \<and> (\<forall>r m' r'. curate scr smp a (m, r) = Inr (m', r') \<longrightarrow>
            consistent m' \<and> well_formed m')
       \<and> (\<forall>g m'. remove_ground_image g m = Inr m' \<longrightarrow>
            ground_absent g m' \<and> consistent m' \<and> well_formed m')
       \<and> (\<forall>k m'. remove_aerial_image k m = Inr m' \<longrightarrow>
            aerial_absent k m' \<and> consistent m' \<and> well_formed m')
       \<and> (\<forall>aerial_files ground_files. distinct (map fst ground_files) \<longrightarrow>
            consistent (build aerial_files ground_files)
            \<and> well_formed (build aerial_files ground_files))"
proof (intro conjI allI impI)
  from assms have ok: "manifest_ok m" by (simp add: manifest_ok_def)
  {
    fix p r m' r'
    assume "run_pass scr smp a p (m, r) = Inr (m', r')"
    with run_pass_ok[of "(m, r)" smp scr a p "(m', r')"] ok assms(1)
    have "manifest_ok m'" by simp
    then show "consistent m'" "well_formed m'" by (simp_all add: manifest_ok_def)
  }
  {
    fix r m' r'
    assume run: "curate scr smp a (m, r) = Inr (m', r')"
    have step: "manifest_ok (fst s')"
      if "manifest_ok (fst s)" "run_pass scr smp a x s = Inr s'" for x s s'
      using that(1) assms(1) that(2) by (rule run_pass_ok)
    from run have "for_each (run_pass scr smp a) (passes_of scr) (m, r) = Inr (m', r')"
      by (simp add: curate_def)
    from for_each_preserves[where P = "\<lambda>s. manifest_ok (fst s)", OF _ this step] ok
    have "manifest_ok m'" by simp
    then show "consistent m'" "well_formed m'" by (simp_all add: manifest_ok_def)
  }
  {
    fix g m'
    assume r: "remove_ground_image g m = Inr m'"
    show "ground_absent g m'" using assms(2) r by (rule remove_ground_image_absent)
    show "consistent m'" using assms(3) r by (rule remove_ground_image_consistent)
    show "well_formed m'" using assms(2) r by (rule remove_ground_image_well_formed)
  }
  {
    fix k m'
    assume r: "remove_aerial_image k m = Inr m'"
    show "aerial_absent k m'" using assms(2) r by (rule remove_aerial_image_absent)
    show "consistent m'" using assms(3) r by (rule remove_aerial_image_consistent)
    show "well_formed m'" using assms(2) r by (rule remove_aerial_image_well_formed)
  }
  {
    fix aerial_files ground_files :: "image_file list"
    assume "distinct (map fst ground_files)"
    then have "built_ok (build aerial_files ground_files)" by (rule build_ok)
    then show "consistent (build aerial_files ground_files)"
      "well_formed (build aerial_files ground_files)"
      by (simp_all add: built_ok_def manifest_ok_def)
  }
qed

text \<open>
  The theorem at the sample manifest: capping at two positives with the sampler that
  keeps the first two removes \<open>g3\<close> from both tiles, and the result is consistent. So is
  the manifest built of one tile and one ground image inside it, where the edge is
  entered on both sides.
\<close>

theorem curation_keeps_consistency_witness:
  "sample_contract first_k \<and> well_formed example_manifest \<and> consistent example_manifest
   \<and> run_pass MK first_k example_args MaxPositives (example_manifest, ())
       = Inr (example_capped_first, ())
   \<and> consistent example_capped_first \<and> well_formed example_capped_first
   \<and> distinct (map fst [example_ground_file])
   \<and> build [example_near_tile_file] [example_ground_file] = example_linked
   \<and> consistent example_linked \<and> well_formed example_linked"
proof -
  have run: "run_pass MK first_k example_args MaxPositives (example_manifest, ())
       = Inr (example_capped_first, ())"
    using example_cap_first by (simp add: example_args_def)
  note all = curation_keeps_consistency[OF first_k_contract example_well_formed
      example_consistent, of MK example_args]
  from all
  have "run_pass MK first_k example_args MaxPositives (example_manifest, ())
          = Inr (example_capped_first, ()) \<longrightarrow>
        consistent example_capped_first \<and> well_formed example_capped_first"
    by blast
  with run have capped: "consistent example_capped_first \<and> well_formed example_capped_first"
    by simp
  have d: "distinct (map fst [example_ground_file])" by simp
  from all
  have "distinct (map fst [example_ground_file]) \<longrightarrow>
        consistent (build [example_near_tile_file] [example_ground_file])
        \<and> well_formed (build [example_near_tile_file] [example_ground_file])"
    by blast
  with d have built: "consistent example_linked \<and> well_formed example_linked"
    by (simp add: example_build_linked)
  from run capped d built first_k_contract example_well_formed example_consistent
  show ?thesis by (simp add: example_build_linked)
qed

section \<open>Capping the number of positives\<close>

text \<open>
  C5, as stated, promises every tile with more positives than the maximum a kept subset
  of exactly the maximum size. With a maximum of two, tile \<open>t1\<close> of the sample manifest
  has three positives and ends the pass with one: the sample drawn for \<open>t1\<close> keeps
  \<open>g2\<close> and \<open>g3\<close>, and the sample drawn afterwards for \<open>t2\<close> excludes \<open>g3\<close>, which is
  then pruned from the whole manifest, \<open>t1\<close> included.
\<close>

theorem capping_overlap_shrinks_below_maximum:
  "cap_positives MK last_k 2 (example_manifest, ()) = Inr (example_capped_last, ())
   \<and> map_option a_positive (map_of (aerial example_manifest) ''t1'')
       = Some [''g1'', ''g2'', ''g3'']
   \<and> map_option a_positive (map_of (aerial example_capped_last) ''t1'') = Some [''g2'']"
  using example_cap_last
  by (simp add: example_manifest_def example_capped_last_def example_tile_def)

text \<open>
  C5, amended. The pass visits the tiles in manifest order. When it visits a tile whose
  current positive list is longer than the maximum (in the MK variant: and the maximum is
  not zero), the list is replaced by a sample of exactly the maximum size taken from it,
  and every ground image of the list outside the sample is absent from the manifest
  afterwards: its entry is deleted and no tile lists it as positive or semi-positive.
  At the end of the pass (in the MK variant with a maximum other than zero) the tiles are
  the same as before, every tile has at most the maximum number of positives, possibly
  fewer, every positive list is a part of what it was, and every ground image that left
  some tile's positive list is absent from the whole manifest. That the sample is
  uniformly distributed is a property of the library's generator and is not stated.
\<close>

theorem capping_prunes_excluded:
  assumes "sample_contract smp" and "well_formed m" and "consistent m"
  shows "(\<forall>a ai r m' r'.
            map_of (aerial m) a = Some ai \<and> cap_applies scr maxp (a_positive ai)
            \<and> cap_tile scr smp maxp a (m, r) = Inr (m', r') \<longrightarrow>
            (\<exists>ai'. map_of (aerial m') a = Some ai'
               \<and> int (length (a_positive ai')) = maxp
               \<and> set (a_positive ai') \<subseteq> set (a_positive ai)
               \<and> (\<forall>g. g \<in> set (a_positive ai) \<and> g \<notin> set (a_positive ai') \<longrightarrow>
                      ground_absent g m')))
       \<and> (\<forall>r m' r'.
            (scr = MK \<longrightarrow> maxp \<noteq> 0) \<and> cap_positives scr smp maxp (m, r) = Inr (m', r') \<longrightarrow>
            dict_keys (aerial m') = dict_keys (aerial m)
            \<and> (\<forall>k ai'. map_of (aerial m') k = Some ai' \<longrightarrow>
                  int (length (a_positive ai')) \<le> maxp
                  \<and> (\<exists>ai. map_of (aerial m) k = Some ai
                        \<and> set (a_positive ai') \<subseteq> set (a_positive ai)
                        \<and> (\<forall>g. g \<in> set (a_positive ai) \<and> g \<notin> set (a_positive ai') \<longrightarrow>
                               ground_absent g m'))))"
proof -
  from assms have ok: "manifest_ok m" by (simp add: manifest_ok_def)
  have step: "\<exists>ai'. map_of (aerial m') a = Some ai'
               \<and> int (length (a_positive ai')) = maxp
               \<and> set (a_positive ai') \<subseteq> set (a_positive ai)
               \<and> (\<forall>g. g \<in> set (a_positive ai) \<and> g \<notin> set (a_positive ai') \<longrightarrow>
                      ground_absent g m')"
    if ai: "map_of (aerial m) a = Some ai" and ap: "cap_applies scr maxp (a_positive ai)"
      and st: "cap_tile scr smp maxp a (m, r) = Inr (m', r')" for a ai r m' r'
  proof -
    from cap_tile_capped[OF ok assms(1) ai ap st] obtain s ai' where
      s: "map_of (aerial m') a = Some ai'" "a_positive ai' = s" "int (length s) = maxp"
        "set s \<subseteq> set (a_positive ai)"
      by auto
    from cap_tile_pruned[OF ok assms(1) st] s(1) ai
    have "\<forall>g. g \<in> set (a_positive ai) \<and> g \<notin> set (a_positive ai') \<longrightarrow> ground_absent g m'"
      unfolding ground_pruned_def by fastforce
    with s show ?thesis by auto
  qed
  have pass: "dict_keys (aerial m') = dict_keys (aerial m)
            \<and> (\<forall>k ai'. map_of (aerial m') k = Some ai' \<longrightarrow>
                  int (length (a_positive ai')) \<le> maxp
                  \<and> (\<exists>ai. map_of (aerial m) k = Some ai
                        \<and> set (a_positive ai') \<subseteq> set (a_positive ai)
                        \<and> (\<forall>g. g \<in> set (a_positive ai) \<and> g \<notin> set (a_positive ai') \<longrightarrow>
                               ground_absent g m')))"
    if guard: "scr = MK \<longrightarrow> maxp \<noteq> 0"
      and run: "cap_positives scr smp maxp (m, r) = Inr (m', r')" for r m' r'
  proof -
    from run have fe: "for_each (cap_tile scr smp maxp) (dict_keys (aerial m)) (m, r) = Inr (m', r')"
      by (simp add: cap_positives_def)
    from for_each_cap_tile[OF assms(1) guard, of "(m, r)" "dict_keys (aerial m)" "(m', r')"] ok fe
    have gp: "ground_pruned m m'"
      and bound: "\<And>k ai'. k \<in> set (dict_keys (aerial m)) \<Longrightarrow> map_of (aerial m') k = Some ai' \<Longrightarrow>
                int (length (a_positive ai')) \<le> maxp"
      by auto
    from gp have keys: "dict_keys (aerial m') = dict_keys (aerial m)"
      by (simp add: ground_pruned_def)
    have "int (length (a_positive ai')) \<le> maxp" if "map_of (aerial m') k = Some ai'" for k ai'
    proof -
      from that have "dict_has k (aerial m')" by (simp add: dict_has_map_of)
      then have "k \<in> set (dict_keys (aerial m))" by (simp add: dict_has_def keys)
      then show ?thesis using that by (rule bound)
    qed
    moreover have "\<exists>ai. map_of (aerial m) k = Some ai
                        \<and> set (a_positive ai') \<subseteq> set (a_positive ai)
                        \<and> (\<forall>g. g \<in> set (a_positive ai) \<and> g \<notin> set (a_positive ai') \<longrightarrow>
                               ground_absent g m')"
      if "map_of (aerial m') k = Some ai'" for k ai'
      using gp that unfolding ground_pruned_def by blast
    ultimately show ?thesis using keys by blast
  qed
  from step pass show ?thesis by blast
qed

text \<open>
  The scenario of the specification: capping \<open>t1\<close> from five positives to two removes
  \<open>g3\<close>, \<open>g4\<close> and \<open>g5\<close> from the manifest, with the semi-positive edges of \<open>g3\<close> and
  \<open>g4\<close> to \<open>t2\<close>.
\<close>

theorem capping_prunes_excluded_witness:
  "sample_contract first_k \<and> well_formed example_five \<and> consistent example_five
   \<and> cap_positives MK first_k 2 (example_five, ()) = Inr (example_five_capped, ())
   \<and> map_option a_positive (map_of (aerial example_five_capped) ''t1'') = Some [''g1'', ''g2'']
   \<and> ground_absent ''g3'' example_five_capped
   \<and> ground_absent ''g4'' example_five_capped
   \<and> ground_absent ''g5'' example_five_capped"
proof -
  let ?m = example_five and ?m' = example_five_capped
  let ?t1 = "example_tile [''g1'', ''g2'', ''g3'', ''g4'', ''g5''] []"
  let ?t1' = "example_tile [''g1'', ''g2''] []"
  have l0: "map_of (aerial ?m) ''t1'' = Some ?t1" by (simp add: example_five_def)
  have l1: "map_of (aerial ?m') ''t1'' = Some ?t1'" by (simp add: example_five_capped_def)
  note inst = capping_prunes_excluded[OF first_k_contract example_five_well_formed
      example_five_consistent, of MK 2]
  from inst have pass: "\<forall>r m' r'.
      (MK = MK \<longrightarrow> (2::int) \<noteq> 0) \<and> cap_positives MK first_k 2 (?m, r) = Inr (m', r') \<longrightarrow>
      dict_keys (aerial m') = dict_keys (aerial ?m)
      \<and> (\<forall>k ai'. map_of (aerial m') k = Some ai' \<longrightarrow>
            int (length (a_positive ai')) \<le> 2
            \<and> (\<exists>ai. map_of (aerial ?m) k = Some ai
                  \<and> set (a_positive ai') \<subseteq> set (a_positive ai)
                  \<and> (\<forall>g. g \<in> set (a_positive ai) \<and> g \<notin> set (a_positive ai') \<longrightarrow>
                         ground_absent g m')))"
    by (rule conjunct2)
  have "(MK = MK \<longrightarrow> (2::int) \<noteq> 0) \<and> cap_positives MK first_k 2 (?m, ()) = Inr (?m', ())"
    using example_five_cap by simp
  from pass[rule_format, OF this] have "\<forall>k ai'. map_of (aerial ?m') k = Some ai' \<longrightarrow>
            int (length (a_positive ai')) \<le> 2
            \<and> (\<exists>ai. map_of (aerial ?m) k = Some ai
                  \<and> set (a_positive ai') \<subseteq> set (a_positive ai)
                  \<and> (\<forall>g. g \<in> set (a_positive ai) \<and> g \<notin> set (a_positive ai') \<longrightarrow>
                         ground_absent g ?m'))"
    by (rule conjunct2)
  from this[rule_format, OF l1] obtain ai where ai: "map_of (aerial ?m) ''t1'' = Some ai"
    "\<forall>g. g \<in> set (a_positive ai) \<and> g \<notin> set (a_positive ?t1') \<longrightarrow> ground_absent g ?m'"
    by blast
  from ai(1) l0 have "ai = ?t1" by simp
  with ai(2) have "\<forall>g. g \<in> set (a_positive ?t1) \<and> g \<notin> set (a_positive ?t1') \<longrightarrow>
      ground_absent g ?m'" by simp
  then have "ground_absent ''g3'' ?m'" "ground_absent ''g4'' ?m'" "ground_absent ''g5'' ?m'"
    by (simp_all add: example_tile_def)
  with first_k_contract example_five_well_formed example_five_consistent example_five_cap l1
  show ?thesis by (simp add: example_tile_def)
qed

section \<open>Reproducibility\<close>




section \<open>The two splits are partitions\<close>

text \<open>
  C7, as stated, has the random split cover the full set of retained ground images. The
  random split is drawn from \<^verbatim>\<open>ground_images\<close>, the retained ground images whose file
  was found; a key whose file is missing is reported, skipped, and lands in neither set.
  In the sample manifest the file of \<open>g5\<close> is missing.
\<close>

theorem random_split_skips_missing_files:
  "random_split first_k (\<lambda>k. k \<noteq> ''g5'') (1/2) () example_manifest
     = Inr (({''g1'', ''g2''}, {''g3'', ''g4''}), ())
   \<and> ''g5'' \<in> set (dict_keys (ground example_manifest))
   \<and> ''g5'' \<notin> {''g1'', ''g2''} \<union> {''g3'', ''g4''}"
  using example_random_split_missing_file
  by (simp add: example_manifest_def dict_keys_def)

text \<open>
  C7, amended. Train set and test set are disjoint under both strategies. Under the
  random strategy their union is the set of retained ground images whose file exists
  under the ground root. Under the episode strategy, when every key yields an episode
  number, their union is the full set of retained ground images: every image follows
  its episode into one of the two sets, whether its file exists or not.
\<close>

theorem splits_partition:
  "(sample_contract smp \<longrightarrow>
      (\<forall>r train_set test_set r'.
          random_split smp file_exists p r m = Inr ((train_set, test_set), r') \<longrightarrow>
          train_set \<inter> test_set = {}
          \<and> train_set \<union> test_set = {k \<in> set (dict_keys (ground m)). file_exists k}))
   \<and> (\<forall>r train_set test_set r'.
          episode_split shuffle p r m = Inr ((train_set, test_set), r') \<longrightarrow>
          set train_set \<inter> set test_set = {}
          \<and> set train_set \<union> set test_set = set (dict_keys (ground m)))"
proof (intro conjI impI allI)
  fix r train_set test_set r'
  assume sc: "sample_contract smp"
    and run: "random_split smp file_exists p r m = Inr ((train_set, test_set), r')"
  note rs = random_split_Inr[OF sc run]
  from rs(2) show "train_set \<inter> test_set = {}" by blast
  from rs have "train_set \<union> test_set = set (ground_images file_exists m)" by blast
  then show "train_set \<union> test_set = {k \<in> set (dict_keys (ground m)). file_exists k}"
    by (simp only: set_ground_images)
next
  fix r train_set test_set r'
  assume run: "episode_split shuffle p r m = Inr ((train_set, test_set), r')"
  then show "set train_set \<inter> set test_set = {}" by (rule episode_split_partition(1))
  from run show "set train_set \<union> set test_set = set (dict_keys (ground m))"
    by (rule episode_split_partition(2))
qed

text \<open>
  Both strategies on the manifest with four episodes-carrying keys, all files present.
\<close>

theorem splits_partition_witness:
  "sample_contract first_k
   \<and> random_split first_k (\<lambda>k. True) (1/2) () example_sols
       = Inr (({''pano/NLF_0101_a.png'', ''pano/NLF_0101_b.png''},
               {''pano/NLF_0205_a.png'', ''pano/NLF_0300_a.png''}), ())
   \<and> {''pano/NLF_0101_a.png'', ''pano/NLF_0101_b.png''}
       \<union> {''pano/NLF_0205_a.png'', ''pano/NLF_0300_a.png''}
       = {k \<in> set (dict_keys (ground example_sols)). True}
   \<and> episode_split rev_shuffle (1/2) () example_sols
       = Inr (([''pano/NLF_0300_a.png''],
               [''pano/NLF_0101_a.png'', ''pano/NLF_0101_b.png'', ''pano/NLF_0205_a.png'']), ())
   \<and> set [''pano/NLF_0300_a.png'']
       \<union> set [''pano/NLF_0101_a.png'', ''pano/NLF_0101_b.png'', ''pano/NLF_0205_a.png'']
       = set (dict_keys (ground example_sols))"
proof -
  note inst = splits_partition[of first_k "\<lambda>k. True" "1/2" example_sols rev_shuffle]
  from inst have a: "sample_contract first_k \<longrightarrow>
      (\<forall>r train_set test_set r'.
          random_split first_k (\<lambda>k. True) (1/2) r example_sols = Inr ((train_set, test_set), r') \<longrightarrow>
          train_set \<inter> test_set = {}
          \<and> train_set \<union> test_set = {k \<in> set (dict_keys (ground example_sols)). True})"
    by (rule conjunct1)
  from inst have b: "\<forall>r train_set test_set r'.
          episode_split rev_shuffle (1/2) r example_sols = Inr ((train_set, test_set), r') \<longrightarrow>
          set train_set \<inter> set test_set = {}
          \<and> set train_set \<union> set test_set = set (dict_keys (ground example_sols))"
    by (rule conjunct2)
  from a[rule_format, OF first_k_contract example_random_split]
  have 1: "{''pano/NLF_0101_a.png'', ''pano/NLF_0101_b.png''}
       \<union> {''pano/NLF_0205_a.png'', ''pano/NLF_0300_a.png''}
       = {k \<in> set (dict_keys (ground example_sols)). True}" by (rule conjunct2)
  from b[rule_format, OF example_episode_split]
  have 2: "set [''pano/NLF_0300_a.png'']
       \<union> set [''pano/NLF_0101_a.png'', ''pano/NLF_0101_b.png'', ''pano/NLF_0205_a.png'']
       = set (dict_keys (ground example_sols))" by (rule conjunct2)
  show ?thesis
    by (intro conjI) (rule first_k_contract example_random_split 1 example_episode_split 2)+
qed

section \<open>No episode straddles the split\<close>



section \<open>Keys without an episode segment\<close>

text \<open>
  C10. If some ground key of the manifest contains no underscore, four digits and
  underscore in a row, the episode-grouped split does not return: indexing the empty
  list of matches raises \<^verbatim>\<open>IndexError\<close>, nothing catches it, and the image is not
  skipped. If every key has such a segment, the split returns its two lists.
\<close>

theorem episode_split_aborts_without_sol_segment:
  "(if \<exists>k \<in> set (dict_keys (ground m)). \<not> has_sol_segment k
    then episode_split shuffle p r m = Inl IndexError
    else \<exists>train_set test_set r'. episode_split shuffle p r m = Inr ((train_set, test_set), r'))"
proof (cases "\<exists>k \<in> set (dict_keys (ground m)). \<not> has_sol_segment k")
  case True
  then show ?thesis using episode_split_Inl_iff[of shuffle p r m IndexError] by simp
next
  case False
  then have "episode_split shuffle p r m \<noteq> Inl e" for e
    using episode_split_Inl_iff[of shuffle p r m e] by blast
  then obtain res where "episode_split shuffle p r m = Inr res"
    by (cases "episode_split shuffle p r m") auto
  with False show ?thesis by (cases res) (auto simp: split_paired_all)
qed

text \<open>The keys of the first sample manifest have no segment.\<close>

theorem episode_split_aborts_without_sol_segment_witness:
  "\<not> has_sol_segment ''g1'' \<and> ''g1'' \<in> set (dict_keys (ground example_manifest))
   \<and> episode_split rev_shuffle (1/2) () example_manifest = Inl IndexError"
proof -
  have n: "\<not> has_sol_segment ''g1''" using find_sol_None_iff[of "''g1''"] example_no_sol by simp
  have k: "''g1'' \<in> set (dict_keys (ground example_manifest))"
    by (simp add: example_manifest_def dict_keys_def)
  from n k have "\<exists>k \<in> set (dict_keys (ground example_manifest)). \<not> has_sol_segment k" by blast
  with episode_split_aborts_without_sol_segment[of example_manifest rev_shuffle "1/2" "()"]
  have "episode_split rev_shuffle (1/2) () example_manifest = Inl IndexError" by simp
  with n k show ?thesis by simp
qed

section \<open>The lines of a split file\<close>

text \<open>
  C6, as stated, gives every ground image of an emitted set exactly one line. The loops
  write one line for every entry of the positive list of the ground image: \<open>g3\<close> of the
  sample manifest is positive for two tiles and gets two lines (and a ground image with
  an empty positive list gets none).
\<close>

theorem split_file_two_lines_for_one_ground_image:
  "split_file False (\<lambda>loc. (0, 0)) example_manifest [''g3'']
     = Inr (''g3 t1 0 0'' @ [CHR 0x0A] @ ''g3 t2 0 0'' @ [CHR 0x0A])
   \<and> map_option g_positive (map_of (ground example_manifest) ''g3'') = Some [''t1'', ''t2'']"
  using example_two_lines by (simp add: example_manifest_def example_ground_def)

text \<open>
  C6, amended. When the edges that are written lead to tiles of the manifest, the text of
  a split file is, for every ground image of the set in turn and for every entry of its
  positive list in turn, one line: the name of the ground image, the name of the positive
  tile and its offset, then name and offset of the first three semi-positive tiles at
  most (further ones are dropped without notice), then the line end. A ground image has
  as many lines as positives. An offset is the pixel of the ground location minus the
  pixel of the tile centre, rows before columns. This holds for the test loop of the MK
  variant and both loops of the BDAG variant, and for the train loop of the MK variant
  when every ground image with a positive has at least three semi-positives.
\<close>

theorem split_file_lines:
  assumes "edges_resolve m keys"
  shows "split_file False t_px m keys
           = Inr (concat (map (\<lambda>k. concat (record_lines t_px m k)) keys))
       \<and> (enough_semi_positives m keys \<longrightarrow>
            split_file True t_px m keys
              = Inr (concat (map (\<lambda>k. concat (record_lines t_px m k)) keys)))
       \<and> (\<forall>k gi. map_of (ground m) k = Some gi \<longrightarrow>
            length (record_lines t_px m k) = length (g_positive gi))
       \<and> (\<forall>g a. offset_text t_px g a
            = str_int (snd (t_px g) - snd (t_px a)) @ '' '' @ str_int (fst (t_px g) - fst (t_px a)))"
proof (intro conjI impI allI)
  show "split_file False t_px m keys
           = Inr (concat (map (\<lambda>k. concat (record_lines t_px m k)) keys))"
    using split_file_lines_from[OF assms, of False t_px "[]"] by (simp add: split_file_def)
next
  assume "enough_semi_positives m keys"
  then show "split_file True t_px m keys
           = Inr (concat (map (\<lambda>k. concat (record_lines t_px m k)) keys))"
    using split_file_lines_from[OF assms, of True t_px "[]"] by (simp add: split_file_def)
next
  fix k gi
  assume "map_of (ground m) k = Some gi"
  then show "length (record_lines t_px m k) = length (g_positive gi)"
    by (rule length_record_lines)
next
  fix g a
  show "offset_text t_px g a
            = str_int (snd (t_px g) - snd (t_px a)) @ '' '' @ str_int (fst (t_px g) - fst (t_px a))"
    by (simp add: offset_text_def ground_aerial_offset_px_def)
qed

text \<open>
  One ground image, positive for \<open>t1.png\<close> and semi-positive for four tiles: one line,
  with three of the four.
\<close>

theorem split_file_lines_witness:
  "edges_resolve example_records [''pano/g_0001_.png'']
   \<and> split_file False example_px example_records [''pano/g_0001_.png'']
       = Inr (''g_0001_.png t1.png -20 60 t2.png -20 60 t3.png -20 60 t4.png -20 60'' @ [CHR 0x0A])
   \<and> concat (map (\<lambda>k. concat (record_lines example_px example_records k)) [''pano/g_0001_.png''])
       = ''g_0001_.png t1.png -20 60 t2.png -20 60 t3.png -20 60 t4.png -20 60'' @ [CHR 0x0A]"
proof -
  from split_file_lines[OF example_records_resolve, of example_px]
  have "split_file False example_px example_records [''pano/g_0001_.png'']
      = Inr (concat (map (\<lambda>k. concat (record_lines example_px example_records k))
                       [''pano/g_0001_.png'']))"
    by (rule conjunct1)
  with example_record_text
  have "concat (map (\<lambda>k. concat (record_lines example_px example_records k)) [''pano/g_0001_.png''])
       = ''g_0001_.png t1.png -20 60 t2.png -20 60 t3.png -20 60 t4.png -20 60'' @ [CHR 0x0A]"
    by simp
  with example_records_resolve example_record_text show ?thesis by blast
qed

section \<open>Containment by comparison of strings\<close>

text \<open>
  C2 asks for the classification by numeric containment. The builder compares the
  captured strings. For the tile with positive boundary longitude \<open>9.0\<close> to \<open>10.0\<close> and
  latitude \<open>50.0\<close> to \<open>51.0\<close> and the ground image at longitude \<open>9.5\<close>, latitude
  \<open>50.5\<close>, the reference classification is positive; the builder finds
  \<^verbatim>\<open>"9.5" <= "10.0"\<close> false, for the positive and for the semi-positive boundary, and
  records nothing.
\<close>

theorem builder_compares_coordinates_as_strings:
  "build [example_tile_file] [example_ground_file]
     = \<lparr>aerial = [(fst example_tile_file, example_built_tile)],
        ground = [(fst example_ground_file, example_built_ground)]\<rparr>
   \<and> recorded_correspondence (build [example_tile_file] [example_ground_file])
        (fst example_ground_file) (fst example_tile_file) = Some Unrelated
   \<and> reference_correspondence example_built_ground example_built_tile = Positive
   \<and> \<not> is_positive example_built_ground example_built_tile
   \<and> \<not> is_semi_positive example_built_ground example_built_tile"
proof -
  have 1: "recorded_correspondence (build [example_tile_file] [example_ground_file])
        (fst example_ground_file) (fst example_tile_file) = Some Unrelated"
    by (simp add: example_build recorded_correspondence_def example_built_tile_def
        example_built_ground_def)
  have 2: "reference_correspondence example_built_ground example_built_tile = Positive"
    by (simp add: reference_correspondence_def inside_rectangle_def example_built_tile_def
        example_built_ground_def decimal_values)
  have 3: "\<not> is_positive example_built_ground example_built_tile"
    "\<not> is_semi_positive example_built_ground example_built_tile"
    by (simp_all add: is_positive_def is_semi_positive_def inside_def example_built_tile_def
        example_built_ground_def)
  from example_build 1 2 3 show ?thesis by simp
qed

section \<open>What the label parser returns\<close>




section \<open>Out-of-range proportions\<close>



end
